theory Spec2Isabelle
  imports Complex_Main "HOL-Library.Signed_Division"
begin

section \<open>Table-based 2D periodic interpolation (interp2\_table1\_for.cpp)\<close>

text \<open>
  The three evaluators of \<^verbatim>\<open>src/irt/nufft/table/interp2_table1_for.cpp\<close> are embedded
  as HOL functions.

  \<^item> A C \<^verbatim>\<open>double\<close> is an IEEE binary64 value: a finite value, one of the two
    infinities, or NaN. Every arithmetic operation rounds its exact result to the
    nearest double, ties to even, and overflows to an infinity; no product and sum are
    fused and no intermediate result has extended precision. The two zeros are one
    value and all NaNs are one value.
  \<^item> A C \<^verbatim>\<open>int\<close> is an \<^typ>\<open>int\<close>. A conversion of a double to \<^verbatim>\<open>int\<close> whose value does
    not fit 32 bits, and an increment of a window index past the largest \<^verbatim>\<open>int\<close>, are
    undefined in C; the model returns the error \<open>IntRange\<close> there. The products
    \<open>J * L\<close> and \<open>K1 * K2\<close> and the index sums are assumed to fit an \<^verbatim>\<open>int\<close>.
  \<^item> An array is a list. A read or write outside the list is undefined behaviour in C;
    the model returns the error \<open>OutOfRange\<close> there.
  \<^item> A pointer is an array together with an offset, so that the re-centring
    \<^verbatim>\<open>r_h1 += ncenter1\<close> is an offset shift and \<^verbatim>\<open>r_h1[n1]\<close> reads at offset \<open>ncenter1 + n1\<close>.
  \<^item> Freshly \<^verbatim>\<open>malloc\<close>ed memory holds no value: a cell is an option, \<open>None\<close> until it is
    written, and reading \<open>None\<close> is the error \<open>UninitRead\<close>.
\<close>

datatype error = OutOfRange | DivByZero | UninitRead | IntRange

definition bind_res :: "error + 'a \<Rightarrow> ('a \<Rightarrow> error + 'b) \<Rightarrow> error + 'b" where
  "bind_res m f = (case m of Inl e \<Rightarrow> Inl e | Inr x \<Rightarrow> f x)"

subsection \<open>Double arithmetic\<close>

datatype double = Fin real | PInf | MInf | NaN

text \<open>Rounding a real to an integer, ties to even.\<close>

definition rne :: "real \<Rightarrow> int" where
  "rne m = (let f = \<lfloor>m\<rfloor>; d = m - real_of_int f
            in if d < 1 / 2 then f else if 1 / 2 < d then f + 1
               else if even f then f else f + 1)"

text \<open>
  The binary exponent of a nonzero real, not below the smallest normal exponent, and
  the spacing of the doubles at that exponent (53 significant bits).
\<close>

definition expo :: "real \<Rightarrow> int" where
  "expo x = max \<lfloor>log 2 \<bar>x\<bar>\<rfloor> (- 1022)"

definition ulp :: "real \<Rightarrow> real" where
  "ulp x = 2 powr real_of_int (expo x - 52)"

text \<open>The double nearest to a real: round to nearest, ties to even, overflow to infinity.\<close>

definition rnd :: "real \<Rightarrow> double" where
  "rnd x = (if x = 0 then Fin 0
     else let y = real_of_int (rne (\<bar>x\<bar> / ulp x)) * ulp x
          in if 2 ^ 1024 \<le> y then (if 0 < x then PInf else MInf)
             else Fin (if 0 < x then y else - y))"

definition inf_sign :: "real \<Rightarrow> double" where
  "inf_sign s = (if s = 0 then NaN else if 0 < s then PInf else MInf)"

definition fneg :: "double \<Rightarrow> double" where
  "fneg a = (case a of Fin x \<Rightarrow> Fin (- x) | PInf \<Rightarrow> MInf | MInf \<Rightarrow> PInf | NaN \<Rightarrow> NaN)"

definition fadd :: "double \<Rightarrow> double \<Rightarrow> double" where
  "fadd a b =
     (case a of
        NaN \<Rightarrow> NaN
      | Fin x \<Rightarrow> (case b of Fin y \<Rightarrow> rnd (x + y) | PInf \<Rightarrow> PInf | MInf \<Rightarrow> MInf | NaN \<Rightarrow> NaN)
      | PInf \<Rightarrow> (case b of Fin y \<Rightarrow> PInf | PInf \<Rightarrow> PInf | MInf \<Rightarrow> NaN | NaN \<Rightarrow> NaN)
      | MInf \<Rightarrow> (case b of Fin y \<Rightarrow> MInf | PInf \<Rightarrow> NaN | MInf \<Rightarrow> MInf | NaN \<Rightarrow> NaN))"

definition fsub :: "double \<Rightarrow> double \<Rightarrow> double" where
  "fsub a b = fadd a (fneg b)"

definition fmul :: "double \<Rightarrow> double \<Rightarrow> double" where
  "fmul a b =
     (case a of
        NaN \<Rightarrow> NaN
      | Fin x \<Rightarrow> (case b of Fin y \<Rightarrow> rnd (x * y) | PInf \<Rightarrow> inf_sign x | MInf \<Rightarrow> inf_sign (- x)
                   | NaN \<Rightarrow> NaN)
      | PInf \<Rightarrow> (case b of Fin y \<Rightarrow> inf_sign y | PInf \<Rightarrow> PInf | MInf \<Rightarrow> MInf | NaN \<Rightarrow> NaN)
      | MInf \<Rightarrow> (case b of Fin y \<Rightarrow> inf_sign (- y) | PInf \<Rightarrow> MInf | MInf \<Rightarrow> PInf | NaN \<Rightarrow> NaN))"

definition fdiv :: "double \<Rightarrow> double \<Rightarrow> double" where
  "fdiv a b =
     (case a of
        NaN \<Rightarrow> NaN
      | Fin x \<Rightarrow> (case b of Fin y \<Rightarrow> (if y = 0 then inf_sign x else rnd (x / y))
                   | PInf \<Rightarrow> Fin 0 | MInf \<Rightarrow> Fin 0 | NaN \<Rightarrow> NaN)
      | PInf \<Rightarrow> (case b of Fin y \<Rightarrow> (if 0 \<le> y then PInf else MInf) | PInf \<Rightarrow> NaN | MInf \<Rightarrow> NaN
                  | NaN \<Rightarrow> NaN)
      | MInf \<Rightarrow> (case b of Fin y \<Rightarrow> (if 0 \<le> y then MInf else PInf) | PInf \<Rightarrow> NaN | MInf \<Rightarrow> NaN
                  | NaN \<Rightarrow> NaN))"

text \<open>\<^verbatim>\<open>floor\<close> of \<^verbatim>\<open>math.h\<close>: exact on finite values.\<close>

definition ffloor :: "double \<Rightarrow> double" where
  "ffloor a = (case a of Fin x \<Rightarrow> Fin (real_of_int \<lfloor>x\<rfloor>) | PInf \<Rightarrow> PInf | MInf \<Rightarrow> MInf | NaN \<Rightarrow> NaN)"

text \<open>The values of a 32-bit \<^verbatim>\<open>int\<close>, and a result that must be one of them.\<close>

definition int_ok :: "int \<Rightarrow> bool" where
  "int_ok n = (- (2 ^ 31) \<le> n \<and> n < 2 ^ 31)"

definition chk :: "int \<Rightarrow> error + int" where
  "chk n = (if int_ok n then Inr n else Inl IntRange)"

text \<open>The conversion of an \<^verbatim>\<open>int\<close> to \<^verbatim>\<open>double\<close> is exact.\<close>

definition double_of_int :: "int \<Rightarrow> double" where
  "double_of_int n = Fin (real_of_int n)"

text \<open>
  The conversion of a \<^verbatim>\<open>double\<close> to \<^verbatim>\<open>int\<close> drops the fraction; it is undefined for
  an infinity, for NaN and for a value outside the range of \<^verbatim>\<open>int\<close>.
\<close>

definition to_int :: "double \<Rightarrow> error + int" where
  "to_int a = (case a of Fin x \<Rightarrow> chk (if 0 \<le> x then \<lfloor>x\<rfloor> else \<lceil>x\<rceil>)
               | PInf \<Rightarrow> Inl IntRange | MInf \<Rightarrow> Inl IntRange | NaN \<Rightarrow> Inl IntRange)"

text \<open>A value that double arithmetic can produce: rounding leaves it as it is.\<close>

definition is_double :: "double \<Rightarrow> bool" where
  "is_double a = (case a of Fin x \<Rightarrow> rnd x = Fin x | PInf \<Rightarrow> True | MInf \<Rightarrow> True | NaN \<Rightarrow> True)"

definition finite_d :: "double \<Rightarrow> bool" where
  "finite_d a = (case a of Fin x \<Rightarrow> True | PInf \<Rightarrow> False | MInf \<Rightarrow> False | NaN \<Rightarrow> False)"

text \<open>A loop state, a window index with two running sums, whose sums are doubles.\<close>

definition doubles :: "int \<times> double \<times> double \<Rightarrow> bool" where
  "doubles st = (is_double (fst (snd st)) \<and> is_double (snd (snd st)))"

text \<open>A loop state whose sums are finite, and a pair of finite values.\<close>

definition finite_sums :: "int \<times> double \<times> double \<Rightarrow> bool" where
  "finite_sums st = (finite_d (fst (snd st)) \<and> finite_d (snd (snd st)))"


subsection \<open>Memory\<close>

definition rd :: "'a list \<Rightarrow> int \<Rightarrow> error + 'a" where
  "rd xs i = (if 0 \<le> i \<and> i < int (length xs) then Inr (xs ! nat i) else Inl OutOfRange)"

definition wr :: "'a list \<Rightarrow> int \<Rightarrow> 'a \<Rightarrow> error + 'a list" where
  "wr xs i v = (if 0 \<le> i \<and> i < int (length xs) then Inr (xs[nat i := v]) else Inl OutOfRange)"

text \<open>Reading a cell that may never have been written.\<close>

definition rd_cell :: "double option list \<Rightarrow> int \<Rightarrow> error + double" where
  "rd_cell xs i = bind_res (rd xs i) (\<lambda>c. case c of None \<Rightarrow> Inl UninitRead | Some v \<Rightarrow> Inr v)"

text \<open>\<^verbatim>\<open>malloc(M*sizeof(double))\<close>: \<open>M\<close> cells, none of them written.\<close>

definition malloc :: "int \<Rightarrow> double option list" where
  "malloc n = replicate (nat n) None"

text \<open>\<^verbatim>\<open>memset(r_fm, 0, M*sizeof(*r_fm))\<close>: the first \<open>M\<close> cells become \<open>0.0\<close>.\<close>

definition memset0 :: "double list \<Rightarrow> int \<Rightarrow> error + double list" where
  "memset0 xs n = (if 0 \<le> n \<and> n \<le> int (length xs)
     then Inr (replicate (nat n) (Fin 0) @ drop (nat n) xs) else Inl OutOfRange)"

type_synonym dptr = "double list \<times> int"

definition ptr_add :: "dptr \<Rightarrow> int \<Rightarrow> dptr" where
  "ptr_add p n = (fst p, snd p + n)"

definition ptr_read :: "dptr \<Rightarrow> int \<Rightarrow> error + double" where
  "ptr_read p i = rd (fst p) (snd p + i)"

subsection \<open>Loops\<close>

text \<open>
  \<^verbatim>\<open>for (jj = lo; jj < n; jj++) body\<close>, where the body does not assign \<open>jj\<close>. The body
  maps the loop state to the next one or fails; a failure ends the loop.
\<close>

function for_loop :: "int \<Rightarrow> int \<Rightarrow> (int \<Rightarrow> 's \<Rightarrow> error + 's) \<Rightarrow> 's \<Rightarrow> error + 's" where
  "for_loop jj n body s =
     (if jj < n
      then (case body jj s of Inl e \<Rightarrow> Inl e | Inr s' \<Rightarrow> for_loop (jj + 1) n body s')
      else Inr s)"
  by pat_completeness auto
termination
  by (relation "measure (\<lambda>(jj, n, body, s). nat (n - jj))") auto

declare for_loop.simps [simp del]

text \<open>The same over an explicit list of indices: the iterations one worker was given.\<close>

primrec iter :: "('a \<Rightarrow> 's \<Rightarrow> error + 's) \<Rightarrow> 'a list \<Rightarrow> 's \<Rightarrow> error + 's" where
  "iter body [] s = Inr s"
| "iter body (x # xs) s = (case body x s of Inl e \<Rightarrow> Inl e | Inr s' \<Rightarrow> iter body xs s')"

primrec map_res :: "('a \<Rightarrow> error + 'b) \<Rightarrow> 'a list \<Rightarrow> error + 'b list" where
  "map_res f [] = Inr []"
| "map_res f (x # xs) =
     (case f x of Inl e \<Rightarrow> Inl e
      | Inr y \<Rightarrow> (case map_res f xs of Inl e \<Rightarrow> Inl e | Inr ys \<Rightarrow> Inr (y # ys)))"

subsection \<open>Arguments\<close>

record interp_args =
  r_ck :: "double list"
  i_ck :: "double list"
  K1 :: int
  K2 :: int
  r_h1 :: "double list"
  r_h2 :: "double list"
  J1 :: int
  J2 :: int
  L1 :: int
  L2 :: int
  p_tm :: "double list"
  M :: int

record complex_args = interp_args +
  i_h1 :: "double list"
  i_h2 :: "double list"

text \<open>
  \<open>flip1\<close> and \<open>flip2\<close> are parameters only when the file is compiled with
  \<^verbatim>\<open>Provide_flip\<close>; the evaluators below take that compile-time flag as their first
  argument and ignore both fields when it is off.
\<close>

record real_args = interp_args +
  flip1 :: int
  flip2 :: int

subsection \<open>Macros of def,table2.h\<close>

text \<open>
  Modelled from the spec: \<^verbatim>\<open>iround\<close> is a macro of \<^verbatim>\<open>def,table2.h\<close>, which is not among
  the sources. Section 4.2 of the spec: round to nearest, ties away from zero.
\<close>

definition iround :: "real \<Rightarrow> int" where
  "iround x = (if 0 \<le> x then \<lfloor>x + 1 / 2\<rfloor> else \<lceil>x - 1 / 2\<rceil>)"

text \<open>The macro applied to a double, its result stored in an \<^verbatim>\<open>int\<close> (line 185).\<close>

definition iround_int :: "double \<Rightarrow> error + int" where
  "iround_int p = (case p of Fin x \<Rightarrow> chk (iround x)
                   | PInf \<Rightarrow> Inl IntRange | MInf \<Rightarrow> Inl IntRange | NaN \<Rightarrow> Inl IntRange)"

subsection \<open>Periodic indexing\<close>

text \<open>
  Lines 187-188 (and 204-205, 281-282, 300-301):
  \<^verbatim>\<open>wrap = floor(k / (double) K); kmod = k - K * wrap;\<close>
  The double quotient of two \<^verbatim>\<open>int\<close>s has the floor of their exact quotient (this is
  proved below, \<open>floor_quotient\<close>), so \<open>wrap\<close> is written with the exact quotient.
  For \<open>K = 0\<close> the quotient is infinite or NaN and its conversion to \<^verbatim>\<open>int\<close> is undefined;
  the model returns \<open>DivByZero\<close>.
\<close>

definition periodic_index :: "int \<Rightarrow> int \<Rightarrow> error + int \<times> int" where
  "periodic_index k K =
     (if K = 0 then Inl DivByZero
      else (let wrap = \<lfloor>real_of_int k / real_of_int K\<rfloor>; kmod = k - K * wrap
            in Inr (kmod, wrap)))"

text \<open>
  Modelled from the spec: \<^verbatim>\<open>mymod\<close> is a macro of \<^verbatim>\<open>def,table2.h\<close>, which is not among
  the sources. Section 4.1 of the spec: the periodic index of \<open>k\<close> for the period \<open>K\<close>,
  with floor semantics, as the other two evaluators compute it.
\<close>

definition mymod :: "int \<Rightarrow> int \<Rightarrow> error + int" where
  "mymod k K = bind_res (periodic_index k K) (\<lambda>(kmod, wrap). Inr kmod)"

text \<open>
  Lines 196-197: \<^verbatim>\<open>if (flip && (wrap % 2)) coef = -coef;\<close>, compiled only under
  \<^verbatim>\<open>Provide_flip\<close>. The remainder of C truncates toward zero (\<open>smod\<close>).
\<close>

definition sign_flip :: "bool \<Rightarrow> int \<Rightarrow> int \<Rightarrow> double \<Rightarrow> double" where
  "sign_flip provide_flip flip wrap coef =
     (if provide_flip \<and> flip \<noteq> 0 \<and> wrap smod 2 \<noteq> 0 then fneg coef else coef)"

subsection \<open>Table lookup\<close>

text \<open>\<^verbatim>\<open>ncenter = floor(J * L/2.)\<close>: half of an \<^verbatim>\<open>int\<close> is exact.\<close>

definition ncenter :: "int \<Rightarrow> int \<Rightarrow> int" where
  "ncenter J L = \<lfloor>real_of_int (J * L) / 2\<rfloor>"

text \<open>
  The start of the window, line 180: \<^verbatim>\<open>const int koff1 = 1 + floor(t1 - J1 / 2.);\<close>.
  The quotient, the difference and the sum are double operations; the result is
  converted to \<^verbatim>\<open>int\<close>.
\<close>

definition k_start :: "double \<Rightarrow> int \<Rightarrow> error + int" where
  "k_start t J =
     to_int (fadd (Fin 1) (ffloor (fsub t (fdiv (double_of_int J) (Fin 2)))))"

text \<open>0th order, lines 184-186: \<^verbatim>\<open>n = iround(p); coef = r_h[n];\<close>\<close>

definition lookup0 :: "dptr \<Rightarrow> double \<Rightarrow> error + double" where
  "lookup0 h p = bind_res (iround_int p) (\<lambda>n. ptr_read h n)"

text \<open>
  1st order, lines 276-280:
  \<^verbatim>\<open>n = floor(p); alf = p - n; ph = r_h + n; coef = (1 - alf) * *ph + alf * *(ph+1);\<close>
\<close>

definition alf :: "double \<Rightarrow> int \<Rightarrow> double" where
  "alf p n = fsub p (double_of_int n)"

definition lookup1 :: "dptr \<Rightarrow> double \<Rightarrow> error + double" where
  "lookup1 h p =
     bind_res (to_int (ffloor p)) (\<lambda>n.
       let alf = alf p n;
           ph = ptr_add h n
       in bind_res (ptr_read ph 0) (\<lambda>v0.
          bind_res (ptr_read ph 1) (\<lambda>v1.
          Inr (fadd (fmul (fsub (Fin 1) alf) v0) (fmul alf v1)))))"

subsection \<open>interp2\_table0\_real\_per: real table, 0th order, sequential\<close>

text \<open>
  The body of the inner loop, lines 200-216. The loop header increments \<open>k1\<close> with
  \<open>jj1\<close>, so \<open>k1\<close> is part of the loop state with the two partial sums.
\<close>

definition inner0_real ::
  "bool \<Rightarrow> real_args \<Rightarrow> dptr \<Rightarrow> double \<Rightarrow> int \<Rightarrow> int \<Rightarrow> int \<times> double \<times> double
     \<Rightarrow> error + int \<times> double \<times> double" where
  "inner0_real provide_flip a h1 t1 k12mod jj1 st =
     (case st of (k1, sum1r, sum1i) \<Rightarrow>
        let p1 = fmul (fsub t1 (double_of_int k1)) (double_of_int (L1 a))
        in bind_res (lookup0 h1 p1) (\<lambda>coef1r.
           bind_res (periodic_index k1 (K1 a)) (\<lambda>(k1mod, wrap1).
           let kk = k12mod + k1mod;
               coef1r = sign_flip provide_flip (flip1 a) wrap1 coef1r
           in bind_res (rd (r_ck a) kk) (\<lambda>rck.
              bind_res (rd (i_ck a) kk) (\<lambda>ick.
              bind_res (chk (k1 + 1)) (\<lambda>k1'.
              Inr (k1', fadd sum1r (fmul coef1r rck), fadd sum1i (fmul coef1r ick))))))))"

text \<open>The body of the outer loop, lines 183-221.\<close>

definition outer0_real ::
  "bool \<Rightarrow> real_args \<Rightarrow> dptr \<Rightarrow> dptr \<Rightarrow> double \<Rightarrow> double \<Rightarrow> int \<Rightarrow> int
     \<Rightarrow> int \<times> double \<times> double \<Rightarrow> error + int \<times> double \<times> double" where
  "outer0_real provide_flip a h1 h2 t1 t2 koff1 jj2 st =
     (case st of (k2, sum2r, sum2i) \<Rightarrow>
        let p2 = fmul (fsub t2 (double_of_int k2)) (double_of_int (L2 a))
        in bind_res (lookup0 h2 p2) (\<lambda>coef2r.
           bind_res (periodic_index k2 (K2 a)) (\<lambda>(k2mod, wrap2).
           let k12mod = k2mod * K1 a;
               coef2r = sign_flip provide_flip (flip2 a) wrap2 coef2r
           in bind_res (for_loop 0 (J1 a) (inner0_real provide_flip a h1 t1 k12mod)
                          (koff1, Fin 0, Fin 0))
                (\<lambda>(k1, sum1r, sum1i).
              bind_res (chk (k2 + 1)) (\<lambda>k2'.
              Inr (k2', fadd sum2r (fmul coef2r sum1r), fadd sum2i (fmul coef2r sum1i)))))))"

text \<open>One query point, lines 178-221: the pair \<open>(sum2r, sum2i)\<close>.\<close>

definition point0_real ::
  "bool \<Rightarrow> real_args \<Rightarrow> dptr \<Rightarrow> dptr \<Rightarrow> double \<Rightarrow> double \<Rightarrow> error + double \<times> double" where
  "point0_real provide_flip a h1 h2 t1 t2 =
     bind_res (k_start t1 (J1 a)) (\<lambda>koff1.
     bind_res (k_start t2 (J2 a)) (\<lambda>k2.
     bind_res (for_loop 0 (J2 a) (outer0_real provide_flip a h1 h2 t1 t2 koff1) (k2, Fin 0, Fin 0))
       (\<lambda>(k2, sum2r, sum2i). Inr (sum2r, sum2i))))"

text \<open>
  The loop over the query points, lines 174-225. The source walks \<^verbatim>\<open>p_tm\<close>, \<^verbatim>\<open>r_fm\<close> and
  \<^verbatim>\<open>i_fm\<close> with \<^verbatim>\<open>++\<close>; in iteration \<open>mm\<close> each of them has been advanced \<open>mm\<close> times, so
  \<^verbatim>\<open>p_tm[M]\<close> is cell \<open>mm + M\<close> and \<^verbatim>\<open>*p_tm\<close> is cell \<open>mm\<close> of the caller's array. The
  caller's output buffers are part of the input and are returned updated.
\<close>

definition step_seq ::
  "'a interp_args_scheme \<Rightarrow> (double \<Rightarrow> double \<Rightarrow> error + double \<times> double) \<Rightarrow> int
     \<Rightarrow> double list \<times> double list \<Rightarrow> error + double list \<times> double list" where
  "step_seq a point mm out =
     (case out of (r_fm, i_fm) \<Rightarrow>
        bind_res (rd (p_tm a) (mm + M a)) (\<lambda>t2.
        bind_res (rd (p_tm a) mm) (\<lambda>t1.
        bind_res (point t1 t2) (\<lambda>(sum2r, sum2i).
        bind_res (wr r_fm mm sum2r) (\<lambda>r_fm'.
        bind_res (wr i_fm mm sum2i) (\<lambda>i_fm'.
        Inr (r_fm', i_fm')))))))"

definition interp2_table0_real_per ::
  "bool \<Rightarrow> real_args \<Rightarrow> double list \<times> double list \<Rightarrow> error + double list \<times> double list" where
  "interp2_table0_real_per provide_flip a out =
     (let h1 = ptr_add (r_h1 a, 0) (ncenter (J1 a) (L1 a));
          h2 = ptr_add (r_h2 a, 0) (ncenter (J2 a) (L2 a))
      in for_loop 0 (M a) (step_seq a (point0_real provide_flip a h1 h2)) out)"

subsection \<open>interp2\_table1\_real\_per: real table, 1st order, sequential\<close>

text \<open>Lines 294-312.\<close>

definition inner1_real ::
  "bool \<Rightarrow> real_args \<Rightarrow> dptr \<Rightarrow> double \<Rightarrow> int \<Rightarrow> int \<Rightarrow> int \<times> double \<times> double
     \<Rightarrow> error + int \<times> double \<times> double" where
  "inner1_real provide_flip a h1 t1 k12mod jj1 st =
     (case st of (k1, sum1r, sum1i) \<Rightarrow>
        let p1 = fmul (fsub t1 (double_of_int k1)) (double_of_int (L1 a))
        in bind_res (lookup1 h1 p1) (\<lambda>coef1r.
           bind_res (periodic_index k1 (K1 a)) (\<lambda>(k1mod, wrap1).
           let kk = k12mod + k1mod;
               coef1r = sign_flip provide_flip (flip1 a) wrap1 coef1r
           in bind_res (rd (r_ck a) kk) (\<lambda>rck.
              bind_res (rd (i_ck a) kk) (\<lambda>ick.
              bind_res (chk (k1 + 1)) (\<lambda>k1'.
              Inr (k1', fadd sum1r (fmul coef1r rck), fadd sum1i (fmul coef1r ick))))))))"

text \<open>Lines 275-317.\<close>

definition outer1_real ::
  "bool \<Rightarrow> real_args \<Rightarrow> dptr \<Rightarrow> dptr \<Rightarrow> double \<Rightarrow> double \<Rightarrow> int \<Rightarrow> int
     \<Rightarrow> int \<times> double \<times> double \<Rightarrow> error + int \<times> double \<times> double" where
  "outer1_real provide_flip a h1 h2 t1 t2 koff1 jj2 st =
     (case st of (k2, sum2r, sum2i) \<Rightarrow>
        let p2 = fmul (fsub t2 (double_of_int k2)) (double_of_int (L2 a))
        in bind_res (lookup1 h2 p2) (\<lambda>coef2r.
           bind_res (periodic_index k2 (K2 a)) (\<lambda>(k2mod, wrap2).
           let k12mod = k2mod * K1 a;
               coef2r = sign_flip provide_flip (flip2 a) wrap2 coef2r
           in bind_res (for_loop 0 (J1 a) (inner1_real provide_flip a h1 t1 k12mod)
                          (koff1, Fin 0, Fin 0))
                (\<lambda>(k1, sum1r, sum1i).
              bind_res (chk (k2 + 1)) (\<lambda>k2'.
              Inr (k2', fadd sum2r (fmul coef2r sum1r), fadd sum2i (fmul coef2r sum1i)))))))"

definition point1_real ::
  "bool \<Rightarrow> real_args \<Rightarrow> dptr \<Rightarrow> dptr \<Rightarrow> double \<Rightarrow> double \<Rightarrow> error + double \<times> double" where
  "point1_real provide_flip a h1 h2 t1 t2 =
     bind_res (k_start t1 (J1 a)) (\<lambda>koff1.
     bind_res (k_start t2 (J2 a)) (\<lambda>k2.
     bind_res (for_loop 0 (J2 a) (outer1_real provide_flip a h1 h2 t1 t2 koff1) (k2, Fin 0, Fin 0))
       (\<lambda>(k2, sum2r, sum2i). Inr (sum2r, sum2i))))"

definition interp2_table1_real_per ::
  "bool \<Rightarrow> real_args \<Rightarrow> double list \<times> double list \<Rightarrow> error + double list \<times> double list" where
  "interp2_table1_real_per provide_flip a out =
     (let h1 = ptr_add (r_h1 a, 0) (ncenter (J1 a) (L1 a));
          h2 = ptr_add (r_h2 a, 0) (ncenter (J2 a) (L2 a))
      in for_loop 0 (M a) (step_seq a (point1_real provide_flip a h1 h2)) out)"

subsection \<open>interp2\_table0\_complex\_per: complex table, 0th order, parallel\<close>

text \<open>Lines 100-111: \<^verbatim>\<open>sum1 += coef1 * ck\<close> as a complex product.\<close>

definition inner0_complex ::
  "complex_args \<Rightarrow> dptr \<Rightarrow> dptr \<Rightarrow> double \<Rightarrow> int \<Rightarrow> int \<Rightarrow> int \<times> double \<times> double
     \<Rightarrow> error + int \<times> double \<times> double" where
  "inner0_complex a rh1 ih1 t1 k12mod jj1 st =
     (case st of (k1, sum1r, sum1i) \<Rightarrow>
        let p1 = fmul (fsub t1 (double_of_int k1)) (double_of_int (L1 a))
        in bind_res (lookup0 rh1 p1) (\<lambda>coef1r.
           bind_res (lookup0 ih1 p1) (\<lambda>coef1i.
           bind_res (mymod k1 (K1 a)) (\<lambda>k1mod.
           let kk = k12mod + k1mod
           in bind_res (rd (r_ck a) kk) (\<lambda>rck.
              bind_res (rd (i_ck a) kk) (\<lambda>ick.
              bind_res (chk (k1 + 1)) (\<lambda>k1'.
              Inr (k1',
                   fadd sum1r (fsub (fmul coef1r rck) (fmul coef1i ick)),
                   fadd sum1i (fadd (fmul coef1r ick) (fmul coef1i rck))))))))))"

text \<open>Lines 88-116: \<^verbatim>\<open>sum2 += coef2 * sum1\<close> as a complex product.\<close>

definition outer0_complex ::
  "complex_args \<Rightarrow> dptr \<Rightarrow> dptr \<Rightarrow> dptr \<Rightarrow> dptr \<Rightarrow> double \<Rightarrow> double \<Rightarrow> int \<Rightarrow> int
     \<Rightarrow> int \<times> double \<times> double \<Rightarrow> error + int \<times> double \<times> double" where
  "outer0_complex a rh1 ih1 rh2 ih2 t1 t2 koff1 jj2 st =
     (case st of (k2, sum2r, sum2i) \<Rightarrow>
        let p2 = fmul (fsub t2 (double_of_int k2)) (double_of_int (L2 a))
        in bind_res (lookup0 rh2 p2) (\<lambda>coef2r.
           bind_res (lookup0 ih2 p2) (\<lambda>coef2i.
           bind_res (mymod k2 (K2 a)) (\<lambda>k2mod.
           let k12mod = k2mod * K1 a
           in bind_res (for_loop 0 (J1 a) (inner0_complex a rh1 ih1 t1 k12mod)
                          (koff1, Fin 0, Fin 0))
                (\<lambda>(k1, sum1r, sum1i).
              bind_res (chk (k2 + 1)) (\<lambda>k2'.
              Inr (k2',
                   fadd sum2r (fsub (fmul coef2r sum1r) (fmul coef2i sum1i)),
                   fadd sum2i (fadd (fmul coef2r sum1i) (fmul coef2i sum1r)))))))))"

definition point0_complex ::
  "complex_args \<Rightarrow> dptr \<Rightarrow> dptr \<Rightarrow> dptr \<Rightarrow> dptr \<Rightarrow> double \<Rightarrow> double
     \<Rightarrow> error + double \<times> double" where
  "point0_complex a rh1 ih1 rh2 ih2 t1 t2 =
     bind_res (k_start t1 (J1 a)) (\<lambda>koff1.
     bind_res (k_start t2 (J2 a)) (\<lambda>k2.
     bind_res (for_loop 0 (J2 a) (outer0_complex a rh1 ih1 rh2 ih2 t1 t2 koff1)
                 (k2, Fin 0, Fin 0))
       (\<lambda>(k2, sum2r, sum2i). Inr (sum2r, sum2i))))"

text \<open>
  One iteration of the work-shared loop, lines 74-123, in the worker that was given
  index \<open>mm\<close>: the sums go to slot \<open>mm\<close> of the worker's private buffers.
\<close>

definition step_par ::
  "complex_args \<Rightarrow> (double \<Rightarrow> double \<Rightarrow> error + double \<times> double) \<Rightarrow> int
     \<Rightarrow> double option list \<times> double option list
     \<Rightarrow> error + double option list \<times> double option list" where
  "step_par a point mm priv =
     (case priv of (r_fm_private, i_fm_private) \<Rightarrow>
        bind_res (rd (p_tm a) (M a + mm)) (\<lambda>t2.
        bind_res (rd (p_tm a) mm) (\<lambda>t1.
        bind_res (point t1 t2) (\<lambda>(sum2r, sum2i).
        bind_res (wr r_fm_private mm (Some sum2r)) (\<lambda>r'.
        bind_res (wr i_fm_private mm (Some sum2i)) (\<lambda>i'.
        Inr (r', i')))))))"

text \<open>
  One worker up to the end of the work-shared loop, lines 69-123: it allocates its two
  private buffers (lines 69-70) and runs the iterations it was given, in order.
\<close>

definition worker ::
  "complex_args \<Rightarrow> (double \<Rightarrow> double \<Rightarrow> error + double \<times> double) \<Rightarrow> int list
     \<Rightarrow> error + double option list \<times> double option list" where
  "worker a point ms = iter (step_par a point) ms (malloc (M a), malloc (M a))"

text \<open>
  The critical section of one worker, lines 124-130: every slot of its private
  buffers is added to the shared output.
\<close>

definition merge_step ::
  "double option list \<times> double option list \<Rightarrow> int \<Rightarrow> double list \<times> double list
     \<Rightarrow> error + double list \<times> double list" where
  "merge_step priv mm out =
     (case (priv, out) of ((r_fm_private, i_fm_private), (r_fm, i_fm)) \<Rightarrow>
        bind_res (rd r_fm mm) (\<lambda>x.
        bind_res (rd_cell r_fm_private mm) (\<lambda>y.
        bind_res (wr r_fm mm (fadd x y)) (\<lambda>r_fm'.
        bind_res (rd i_fm mm) (\<lambda>u.
        bind_res (rd_cell i_fm_private mm) (\<lambda>v.
        bind_res (wr i_fm mm (fadd u v)) (\<lambda>i_fm'.
        Inr (r_fm', i_fm'))))))))"

definition merge ::
  "complex_args \<Rightarrow> double option list \<times> double option list \<Rightarrow> double list \<times> double list
     \<Rightarrow> error + double list \<times> double list" where
  "merge a priv out = for_loop 0 (M a) (merge_step priv) out"

text \<open>
  The whole evaluator, lines 43-134. The schedule \<open>sched\<close> lists, for every worker of
  the parallel region, the indices that \<^verbatim>\<open>omp for schedule(dynamic)\<close> gave it, in the order
  it ran them. The work-shared loop ends with a barrier, so every worker has finished
  its iterations before the first critical section; the critical sections then run one
  after the other.
\<close>

definition interp2_table0_complex_per ::
  "int list list \<Rightarrow> complex_args \<Rightarrow> double list \<times> double list
     \<Rightarrow> error + double list \<times> double list" where
  "interp2_table0_complex_per sched a out =
     (case out of (r_fm, i_fm) \<Rightarrow>
        let rh1 = ptr_add (r_h1 a, 0) (ncenter (J1 a) (L1 a));
            ih1 = ptr_add (i_h1 a, 0) (ncenter (J1 a) (L1 a));
            rh2 = ptr_add (r_h2 a, 0) (ncenter (J2 a) (L2 a));
            ih2 = ptr_add (i_h2 a, 0) (ncenter (J2 a) (L2 a))
        in bind_res (memset0 r_fm (M a)) (\<lambda>r_fm.
           bind_res (memset0 i_fm (M a)) (\<lambda>i_fm.
           bind_res (map_res (worker a (point0_complex a rh1 ih1 rh2 ih2)) sched) (\<lambda>privs.
           iter (merge a) privs (r_fm, i_fm)))))"

text \<open>
  A schedule gives every index \<open>0, ..., M - 1\<close> to exactly one worker, and there is at
  least one worker. With a single worker the loop runs in index order.
\<close>

definition valid_sched :: "int list list \<Rightarrow> int \<Rightarrow> bool" where
  "valid_sched sched m = (sched \<noteq> [] \<and> sort (concat sched) = [0..m - 1])"

definition single_worker :: "int \<Rightarrow> int list list" where
  "single_worker m = [[0..m - 1]]"

section \<open>The separable double sum\<close>

text \<open>
  A complex number is the pair of its real and its imaginary part. Sums and products
  of such pairs are formed from the double operations as the source forms them: a
  real weight scales both parts, a complex weight multiplies as a complex number.
\<close>

type_synonym dcomplex = "double \<times> double"

definition cadd :: "dcomplex \<Rightarrow> dcomplex \<Rightarrow> dcomplex" where
  "cadd s x = (fadd (fst s) (fst x), fadd (snd s) (snd x))"

definition smul :: "double \<Rightarrow> dcomplex \<Rightarrow> dcomplex" where
  "smul w c = (fmul w (fst c), fmul w (snd c))"

definition cmul :: "dcomplex \<Rightarrow> dcomplex \<Rightarrow> dcomplex" where
  "cmul w c = (fsub (fmul (fst w) (fst c)) (fmul (snd w) (snd c)),
               fadd (fmul (fst w) (snd c)) (fmul (snd w) (fst c)))"

text \<open>The terms \<open>f 0, ..., f (n - 1)\<close> added in this order to a sum that starts at zero.\<close>

definition accumulate :: "(int \<Rightarrow> dcomplex) \<Rightarrow> int \<Rightarrow> dcomplex" where
  "accumulate f n = foldl (\<lambda>s jj. cadd s (f jj)) (Fin 0, Fin 0) [0..n - 1]"

text \<open>
  The value of a table at an index of its re-centred view, and whether that index is
  inside the table.
\<close>

definition tab_at :: "dptr \<Rightarrow> int \<Rightarrow> double" where
  "tab_at h n = fst h ! nat (snd h + n)"

definition in_tab :: "dptr \<Rightarrow> int \<Rightarrow> bool" where
  "in_tab h n = (0 \<le> snd h + n \<and> snd h + n < int (length (fst h)))"

text \<open>
  Section 4.3 of the spec: the first neighbour of the window is \<open>1 + floor (t - J / 2)\<close>.
  The difference is the double difference; half of \<open>J\<close>, the floor and the increment
  are exact.
\<close>

definition window_start :: "double \<Rightarrow> int \<Rightarrow> int" where
  "window_start t J =
     (case fsub t (Fin (real_of_int J / 2)) of
        Fin d \<Rightarrow> 1 + \<lfloor>d\<rfloor> | PInf \<Rightarrow> 0 | MInf \<Rightarrow> 0 | NaN \<Rightarrow> 0)"

text \<open>
  The window is representable: \<open>J\<close> is an \<^verbatim>\<open>int\<close>, the difference is finite, and the first
  neighbour and the value of the index variable after the last increment are \<^verbatim>\<open>int\<close>s.
\<close>

definition start_ok :: "double \<Rightarrow> int \<Rightarrow> bool" where
  "start_ok t J =
     (int_ok J \<and> finite_d (fsub t (Fin (real_of_int J / 2))) \<and>
      int_ok (window_start t J) \<and> int_ok (window_start t J + J))"

text \<open>Section 4.2 of the spec: the offset \<open>p = (t - k) * L\<close> of the neighbour \<open>k\<close>.\<close>

definition offset :: "double \<Rightarrow> int \<Rightarrow> int \<Rightarrow> double" where
  "offset t k L = fmul (fsub t (Fin (real_of_int k))) (Fin (real_of_int L))"

text \<open>The table index of an offset: the nearest integer (0th order), the floor (1st order).\<close>

definition index0 :: "double \<Rightarrow> int" where
  "index0 p = (case p of Fin x \<Rightarrow> iround x | PInf \<Rightarrow> 0 | MInf \<Rightarrow> 0 | NaN \<Rightarrow> 0)"

definition index1 :: "double \<Rightarrow> int" where
  "index1 p = (case p of Fin x \<Rightarrow> \<lfloor>x\<rfloor> | PInf \<Rightarrow> 0 | MInf \<Rightarrow> 0 | NaN \<Rightarrow> 0)"

text \<open>The interpolation weight of the grid neighbour \<open>k\<close> for the coordinate \<open>t\<close>.\<close>

definition weight0 :: "dptr \<Rightarrow> int \<Rightarrow> double \<Rightarrow> int \<Rightarrow> double" where
  "weight0 h L t k = tab_at h (index0 (offset t k L))"

definition weight1 :: "dptr \<Rightarrow> int \<Rightarrow> double \<Rightarrow> int \<Rightarrow> double" where
  "weight1 h L t k =
     (let p = offset t k L;
          n = index1 p;
          al = fsub p (Fin (real_of_int n))
      in fadd (fmul (fsub (Fin 1) al) (tab_at h n)) (fmul al (tab_at h (n + 1))))"

text \<open>
  The window of \<open>t\<close> is representable, every offset in it is finite, and every table
  index that it touches is an \<^verbatim>\<open>int\<close> inside the table.
\<close>

definition window_ok0 :: "dptr \<Rightarrow> int \<Rightarrow> int \<Rightarrow> double \<Rightarrow> bool" where
  "window_ok0 h J L t =
     (start_ok t J \<and>
      (\<forall>jj\<in>{0..<J}. finite_d (offset t (window_start t J + jj) L) \<and>
         int_ok (index0 (offset t (window_start t J + jj) L)) \<and>
         in_tab h (index0 (offset t (window_start t J + jj) L))))"

definition window_ok1 :: "dptr \<Rightarrow> int \<Rightarrow> int \<Rightarrow> double \<Rightarrow> bool" where
  "window_ok1 h J L t =
     (start_ok t J \<and>
      (\<forall>jj\<in>{0..<J}. finite_d (offset t (window_start t J + jj) L) \<and>
         int_ok (index1 (offset t (window_start t J + jj) L)) \<and>
         in_tab h (index1 (offset t (window_start t J + jj) L)) \<and>
         in_tab h (index1 (offset t (window_start t J + jj) L) + 1)))"

text \<open>The grid has positive extents and both coefficient arrays hold \<open>K1 * K2\<close> values.\<close>

definition grid_ok :: "'a interp_args_scheme \<Rightarrow> bool" where
  "grid_ok a = (0 < K1 a \<and> 0 < K2 a \<and>
     int (length (r_ck a)) = K1 a * K2 a \<and> int (length (i_ck a)) = K1 a * K2 a)"

text \<open>The grid coefficient at a linear index.\<close>

definition ck :: "'a interp_args_scheme \<Rightarrow> int \<Rightarrow> dcomplex" where
  "ck a kk = (r_ck a ! nat kk, i_ck a ! nat kk)"

text \<open>
  Section 4.3 of the spec: the outer sum over \<open>jj2 = 0, ..., J2 - 1\<close> with
  \<open>k2 = k_start_2 + jj2\<close>, the inner sum over \<open>jj1 = 0, ..., J1 - 1\<close> with
  \<open>k1 = k_start_1 + jj1\<close>, the coefficient at the linear index \<open>k2mod * K1 + k1mod\<close>.
  The product \<open>mul\<close> is \<open>smul\<close> for a real table and \<open>cmul\<close> for a complex one.
\<close>

definition separable_sum ::
  "'a interp_args_scheme \<Rightarrow> ('w \<Rightarrow> dcomplex \<Rightarrow> dcomplex) \<Rightarrow> (int \<Rightarrow> 'w) \<Rightarrow> (int \<Rightarrow> 'w)
     \<Rightarrow> double \<Rightarrow> double \<Rightarrow> dcomplex" where
  "separable_sum a mul w1 w2 t1 t2 =
     accumulate (\<lambda>jj2. mul (w2 (window_start t2 (J2 a) + jj2))
        (accumulate (\<lambda>jj1. mul (w1 (window_start t1 (J1 a) + jj1))
           (ck a (((window_start t2 (J2 a) + jj2) mod K2 a) * K1 a +
                  (window_start t1 (J1 a) + jj1) mod K1 a)))
         (J1 a)))
      (J2 a)"

text \<open>The inner sum alone, for the row \<open>k2\<close> of the grid.\<close>

definition inner_sum ::
  "'a interp_args_scheme \<Rightarrow> ('w \<Rightarrow> dcomplex \<Rightarrow> dcomplex) \<Rightarrow> (int \<Rightarrow> 'w) \<Rightarrow> double \<Rightarrow> int
     \<Rightarrow> dcomplex" where
  "inner_sum a mul w1 t1 k2 =
     accumulate (\<lambda>jj1. mul (w1 (window_start t1 (J1 a) + jj1))
        (ck a ((k2 mod K2 a) * K1 a + (window_start t1 (J1 a) + jj1) mod K1 a)))
      (J1 a)"

text \<open>The weights of the three evaluators as functions of the grid neighbour.\<close>

definition w_real0 :: "bool \<Rightarrow> int \<Rightarrow> int \<Rightarrow> dptr \<Rightarrow> int \<Rightarrow> double \<Rightarrow> int \<Rightarrow> double" where
  "w_real0 provide_flip flip K h L t k =
     sign_flip provide_flip flip (k div K) (weight0 h L t k)"

definition w_real1 :: "bool \<Rightarrow> int \<Rightarrow> int \<Rightarrow> dptr \<Rightarrow> int \<Rightarrow> double \<Rightarrow> int \<Rightarrow> double" where
  "w_real1 provide_flip flip K h L t k =
     sign_flip provide_flip flip (k div K) (weight1 h L t k)"

definition w_complex0 :: "dptr \<Rightarrow> dptr \<Rightarrow> int \<Rightarrow> double \<Rightarrow> int \<Rightarrow> dcomplex" where
  "w_complex0 rh ih L t k = (weight0 rh L t k, weight0 ih L t k)"

text \<open>
  What one iteration of a loop over the query points computes before it stores the
  result: it reads the two coordinates of point \<open>mm\<close> and evaluates the point.
\<close>

definition pt_at ::
  "'a interp_args_scheme \<Rightarrow> (double \<Rightarrow> double \<Rightarrow> error + double \<times> double) \<Rightarrow> int
     \<Rightarrow> error + double \<times> double" where
  "pt_at a point mm =
     bind_res (rd (p_tm a) (mm + M a)) (\<lambda>t2.
     bind_res (rd (p_tm a) mm) (\<lambda>t1. point t1 t2))"

section \<open>What the evaluators are expected to return\<close>

text \<open>The re-centred view of a table: \<^verbatim>\<open>r_h1 += ncenter1\<close>.\<close>

definition centred :: "double list \<Rightarrow> int \<Rightarrow> int \<Rightarrow> dptr" where
  "centred tab J L = ptr_add (tab, 0) (ncenter J L)"

text \<open>The coordinates of query point \<open>mm\<close>: axis 1 first, axis 2 in the second half.\<close>

definition t1_of :: "'a interp_args_scheme \<Rightarrow> int \<Rightarrow> double" where
  "t1_of a mm = p_tm a ! nat mm"

definition t2_of :: "'a interp_args_scheme \<Rightarrow> int \<Rightarrow> double" where
  "t2_of a mm = p_tm a ! nat (mm + M a)"

text \<open>
  The caller's buffers have the documented sizes: \<open>2 * M\<close> coordinates and \<open>M\<close> cells in
  each output array.
\<close>

definition buffers_ok :: "'a interp_args_scheme \<Rightarrow> double list \<times> double list \<Rightarrow> bool" where
  "buffers_ok a out = (0 \<le> M a \<and> int (length (p_tm a)) = 2 * M a \<and>
     int (length (fst out)) = M a \<and> int (length (snd out)) = M a)"

text \<open>The window of every query point is representable and stays inside the tables.\<close>

definition tables_ok0 :: "'a interp_args_scheme \<Rightarrow> bool" where
  "tables_ok0 a = (\<forall>mm\<in>{0..<M a}.
     window_ok0 (centred (r_h1 a) (J1 a) (L1 a)) (J1 a) (L1 a) (t1_of a mm) \<and>
     window_ok0 (centred (r_h2 a) (J2 a) (L2 a)) (J2 a) (L2 a) (t2_of a mm))"

definition tables_ok1 :: "'a interp_args_scheme \<Rightarrow> bool" where
  "tables_ok1 a = (\<forall>mm\<in>{0..<M a}.
     window_ok1 (centred (r_h1 a) (J1 a) (L1 a)) (J1 a) (L1 a) (t1_of a mm) \<and>
     window_ok1 (centred (r_h2 a) (J2 a) (L2 a)) (J2 a) (L2 a) (t2_of a mm))"

definition tables_ok0_imag :: "complex_args \<Rightarrow> bool" where
  "tables_ok0_imag a = (\<forall>mm\<in>{0..<M a}.
     window_ok0 (centred (i_h1 a) (J1 a) (L1 a)) (J1 a) (L1 a) (t1_of a mm) \<and>
     window_ok0 (centred (i_h2 a) (J2 a) (L2 a)) (J2 a) (L2 a) (t2_of a mm))"

text \<open>The separable double sum of query point \<open>mm\<close> with the weights of each evaluator.\<close>

definition value_real0 :: "bool \<Rightarrow> real_args \<Rightarrow> int \<Rightarrow> dcomplex" where
  "value_real0 provide_flip a mm =
     separable_sum a smul
       (w_real0 provide_flip (flip1 a) (K1 a) (centred (r_h1 a) (J1 a) (L1 a)) (L1 a) (t1_of a mm))
       (w_real0 provide_flip (flip2 a) (K2 a) (centred (r_h2 a) (J2 a) (L2 a)) (L2 a) (t2_of a mm))
       (t1_of a mm) (t2_of a mm)"

definition value_real1 :: "bool \<Rightarrow> real_args \<Rightarrow> int \<Rightarrow> dcomplex" where
  "value_real1 provide_flip a mm =
     separable_sum a smul
       (w_real1 provide_flip (flip1 a) (K1 a) (centred (r_h1 a) (J1 a) (L1 a)) (L1 a) (t1_of a mm))
       (w_real1 provide_flip (flip2 a) (K2 a) (centred (r_h2 a) (J2 a) (L2 a)) (L2 a) (t2_of a mm))
       (t1_of a mm) (t2_of a mm)"

definition value_complex0 :: "complex_args \<Rightarrow> int \<Rightarrow> dcomplex" where
  "value_complex0 a mm =
     separable_sum a cmul
       (w_complex0 (centred (r_h1 a) (J1 a) (L1 a)) (centred (i_h1 a) (J1 a) (L1 a)) (L1 a)
          (t1_of a mm))
       (w_complex0 (centred (r_h2 a) (J2 a) (L2 a)) (centred (i_h2 a) (J2 a) (L2 a)) (L2 a)
          (t2_of a mm))
       (t1_of a mm) (t2_of a mm)"

section \<open>The end-to-end example of the spec\<close>

text \<open>
  Section 8 of the spec: \<open>K1 = K2 = 4\<close>, \<open>J1 = J2 = 2\<close>, \<open>L1 = L2 = 1\<close>, both tables
  \<open>[0, 1, 0]\<close>, the coefficient 1 at \<open>(0, 0)\<close> and 0 elsewhere, one query point
  \<open>(t1, 0.0)\<close>. The two flip flags are parameters of the example.
\<close>

definition example_real :: "double \<Rightarrow> int \<Rightarrow> int \<Rightarrow> real_args" where
  "example_real t1 f1 f2 =
     \<lparr>r_ck = [Fin 1, Fin 0, Fin 0, Fin 0, Fin 0, Fin 0, Fin 0, Fin 0,
              Fin 0, Fin 0, Fin 0, Fin 0, Fin 0, Fin 0, Fin 0, Fin 0],
      i_ck = [Fin 0, Fin 0, Fin 0, Fin 0, Fin 0, Fin 0, Fin 0, Fin 0,
              Fin 0, Fin 0, Fin 0, Fin 0, Fin 0, Fin 0, Fin 0, Fin 0],
      K1 = 4, K2 = 4, r_h1 = [Fin 0, Fin 1, Fin 0], r_h2 = [Fin 0, Fin 1, Fin 0],
      J1 = 2, J2 = 2, L1 = 1, L2 = 1, p_tm = [t1, Fin 0], M = 1,
      flip1 = f1, flip2 = f2\<rparr>"

text \<open>The same grid, tables and query point for the complex-table evaluator.\<close>

definition example_complex :: "double \<Rightarrow> complex_args" where
  "example_complex t1 =
     \<lparr>r_ck = [Fin 1, Fin 0, Fin 0, Fin 0, Fin 0, Fin 0, Fin 0, Fin 0,
              Fin 0, Fin 0, Fin 0, Fin 0, Fin 0, Fin 0, Fin 0, Fin 0],
      i_ck = [Fin 0, Fin 0, Fin 0, Fin 0, Fin 0, Fin 0, Fin 0, Fin 0,
              Fin 0, Fin 0, Fin 0, Fin 0, Fin 0, Fin 0, Fin 0, Fin 0],
      K1 = 4, K2 = 4, r_h1 = [Fin 0, Fin 1, Fin 0], r_h2 = [Fin 0, Fin 1, Fin 0],
      J1 = 2, J2 = 2, L1 = 1, L2 = 1, p_tm = [t1, Fin 0], M = 1,
      i_h1 = [Fin 0, Fin 0, Fin 0], i_h2 = [Fin 0, Fin 0, Fin 0]\<rparr>"

text \<open>
  A grid of three columns and one row with the coefficients \<open>1, 1, 0\<close>, a window of
  two neighbours on axis 1 with the table \<open>[5, 1, 7]\<close>, a window of one neighbour on
  axis 2 with the table \<open>[1, 0]\<close>, and one query point \<open>(t1, 0.0)\<close>.
\<close>

definition example_row :: "double \<Rightarrow> real_args" where
  "example_row t1 =
     \<lparr>r_ck = [Fin 1, Fin 1, Fin 0], i_ck = [Fin 0, Fin 0, Fin 0],
      K1 = 3, K2 = 1, r_h1 = [Fin 5, Fin 1, Fin 7], r_h2 = [Fin 1, Fin 0],
      J1 = 2, J2 = 1, L1 = 1, L2 = 1, p_tm = [t1, Fin 0], M = 1,
      flip1 = 0, flip2 = 0\<rparr>"

text \<open>
  The end-to-end example with a window of three neighbours on axis 1, a table of four
  values for that axis and the query point \<open>(4.25, 0.0)\<close>, for the real-table and for
  the complex-table evaluators.
\<close>

definition example_wide :: "int \<Rightarrow> int \<Rightarrow> real_args" where
  "example_wide f1 f2 =
     (example_real (Fin (17 / 4)) f1 f2)\<lparr>J1 := 3, r_h1 := [Fin 0, Fin 1, Fin 0, Fin 0]\<rparr>"

definition example_wide_complex :: complex_args where
  "example_wide_complex =
     (example_complex (Fin (17 / 4)))
       \<lparr>J1 := 3, r_h1 := [Fin 0, Fin 1, Fin 0, Fin 0], i_h1 := [Fin 0, Fin 0, Fin 0, Fin 0]\<rparr>"

section \<open>Replicated grid and zero imaginary tables\<close>

text \<open>
  Section 8 of the spec, periodic wraparound: \<open>cext\<close> is the grid replicated
  periodically along both axes, indexed by the unwrapped pair \<open>(k1, k2)\<close>; every copy
  of a cell holds the coefficient of that cell.
\<close>

definition replicates :: "'a interp_args_scheme \<Rightarrow> (int \<Rightarrow> int \<Rightarrow> dcomplex) \<Rightarrow> bool" where
  "replicates a cext =
     (\<forall>k1 k2 n1 n2. 0 \<le> k1 \<and> k1 < K1 a \<and> 0 \<le> k2 \<and> k2 < K2 a \<longrightarrow>
        cext (k1 + n1 * K1 a) (k2 + n2 * K2 a) = ck a (k2 * K1 a + k1))"

text \<open>The double sum over the replicated grid, indexed without wraparound.\<close>

definition nowrap_sum ::
  "'a interp_args_scheme \<Rightarrow> ('w \<Rightarrow> dcomplex \<Rightarrow> dcomplex) \<Rightarrow> (int \<Rightarrow> 'w) \<Rightarrow> (int \<Rightarrow> 'w)
     \<Rightarrow> (int \<Rightarrow> int \<Rightarrow> dcomplex) \<Rightarrow> double \<Rightarrow> double \<Rightarrow> dcomplex" where
  "nowrap_sum a mul w1 w2 cext t1 t2 =
     accumulate (\<lambda>jj2. mul (w2 (window_start t2 (J2 a) + jj2))
        (accumulate (\<lambda>jj1. mul (w1 (window_start t1 (J1 a) + jj1))
           (cext (window_start t1 (J1 a) + jj1) (window_start t2 (J2 a) + jj2)))
         (J1 a)))
      (J2 a)"

text \<open>The periodic extension of the grid of \<open>a\<close>, as one such replication.\<close>

definition periodic_ext :: "'a interp_args_scheme \<Rightarrow> int \<Rightarrow> int \<Rightarrow> dcomplex" where
  "periodic_ext a k1 k2 = ck a ((k2 mod K2 a) * K1 a + k1 mod K1 a)"

text \<open>
  A coordinate \<open>x\<close> and the coordinate one period \<open>K\<close> further are both doubles with a
  representable window, and the window start computed for the second is the window
  start computed for the first, moved by \<open>K\<close>.
\<close>

definition window_shifts :: "real \<Rightarrow> int \<Rightarrow> int \<Rightarrow> bool" where
  "window_shifts x K J =
     (start_ok (Fin x) J \<and> start_ok (Fin (x + real_of_int K)) J \<and>
      window_start (Fin (x + real_of_int K)) J = window_start (Fin x) J + K)"

text \<open>The difference \<open>x - J / 2\<close> is a double, so that line 180 computes it exactly.\<close>

definition exact_start :: "real \<Rightarrow> int \<Rightarrow> bool" where
  "exact_start x J = (rnd (x - real_of_int J / 2) = Fin (x - real_of_int J / 2))"

text \<open>
  The arguments of the complex-table evaluator that carry the grid, the real tables and
  the query points of \<open>a\<close>, with imaginary tables of the same length that are zero
  everywhere.
\<close>

definition with_zero_imag :: "real_args \<Rightarrow> complex_args" where
  "with_zero_imag a =
     \<lparr>r_ck = r_ck a, i_ck = i_ck a, K1 = K1 a, K2 = K2 a, r_h1 = r_h1 a, r_h2 = r_h2 a,
      J1 = J1 a, J2 = J2 a, L1 = L1 a, L2 = L2 a, p_tm = p_tm a, M = M a,
      i_h1 = replicate (length (r_h1 a)) (Fin 0), i_h2 = replicate (length (r_h2 a)) (Fin 0)\<rparr>"




section \<open>Rounding to a double\<close>

text \<open>
  Rounding leaves a double as it is; integers up to \<open>2 ^ 53\<close> and dyadic fractions with a
  53-bit numerator are doubles; rounding a real between 0 and 1 stays between 0 and 1.
\<close>

lemma rne_of_int [simp]: "rne (real_of_int n) = n"
  by (simp add: rne_def)

lemma rne_nonneg: "0 \<le> m \<Longrightarrow> 0 \<le> rne m"
  by (auto simp: rne_def Let_def)

lemma rne_le: "m \<le> real_of_int T \<Longrightarrow> rne m \<le> T"
proof -
  assume a: "m \<le> real_of_int T"
  show ?thesis
  proof (cases "m = real_of_int T")
    case True
    then show ?thesis by simp
  next
    case False
    then have "m < real_of_int T" using a by simp
    then have "\<lfloor>m\<rfloor> < T" by (simp add: floor_less_iff)
    then show ?thesis by (auto simp: rne_def Let_def)
  qed
qed

lemma pow2_nat: "0 \<le> d \<Longrightarrow> (2::real) powr real_of_int d = 2 ^ nat d"
  by (simp add: powr_real_of_int)

lemma pow2_diff: "(2::real) powr real_of_int a / 2 powr real_of_int b = 2 powr real_of_int (a - b)"
  by (simp add: powr_diff)

lemma pow2_add: "(2::real) powr real_of_int a * 2 powr real_of_int b = 2 powr real_of_int (a + b)"
  by (simp add: powr_add)

lemma pow2_52: "real_of_int (2 ^ 52) * 2 powr real_of_int (e - 52) = 2 powr real_of_int e"
proof -
  have "(2::real) powr real_of_int 52 * 2 powr real_of_int (e - 52) = 2 powr real_of_int (52 + (e - 52))"
    by (rule pow2_add)
  then show ?thesis by simp
qed

lemma pow2_succ: "(2::real) ^ 53 * 2 powr real_of_int (e - 52) = 2 powr (real_of_int e + 1)"
proof -
  have "(2::real) powr real_of_int 53 * 2 powr real_of_int (e - 52) = 2 powr real_of_int (53 + (e - 52))"
    by (rule pow2_add)
  then show ?thesis by (simp add: add.commute)
qed

lemma ulp_pos [simp]: "0 < ulp x"
  by (simp add: ulp_def)

lemma ulp_neq0 [simp]: "ulp x \<noteq> 0"
  by (simp add: ulp_def)

lemma ulp_nonneg [simp]: "0 \<le> ulp x"
  by (simp add: ulp_def)

lemma rne_abs_nonneg [simp]: "0 \<le> rne (\<bar>x\<bar> / ulp x)"
  by (intro rne_nonneg divide_nonneg_nonneg) simp_all

lemma expo_ge: "- 1022 \<le> expo x"
  by (simp add: expo_def)

lemma expo_le:
  assumes "x \<noteq> 0" "\<bar>x\<bar> < 2 powr (real_of_int e + 1)" "- 1022 \<le> e"
  shows "expo x \<le> e"
proof -
  have "log 2 \<bar>x\<bar> < real_of_int e + 1"
    using assms(1,2) by (simp add: log_less_iff)
  then have "\<lfloor>log 2 \<bar>x\<bar>\<rfloor> \<le> e" by (simp add: floor_le_iff)
  then show ?thesis using assms(3) by (simp add: expo_def)
qed

lemma expo_eq:
  assumes "x \<noteq> 0" "2 powr real_of_int e \<le> \<bar>x\<bar>" "\<bar>x\<bar> < 2 powr (real_of_int e + 1)" "- 1022 \<le> e"
  shows "expo x = e"
proof -
  have "\<lfloor>log 2 \<bar>x\<bar>\<rfloor> = e"
    using assms by (subst floor_log_eq_powr_iff) simp_all
  then show ?thesis using assms(4) by (simp add: expo_def)
qed

lemma abs_less_powr_expo:
  assumes "x \<noteq> 0"
  shows "\<bar>x\<bar> < 2 powr (real_of_int (expo x) + 1)"
proof -
  have "log 2 \<bar>x\<bar> < real_of_int \<lfloor>log 2 \<bar>x\<bar>\<rfloor> + 1" by linarith
  also have "\<dots> \<le> real_of_int (expo x) + 1" by (simp add: expo_def)
  finally have "log 2 \<bar>x\<bar> < real_of_int (expo x) + 1" .
  then show ?thesis using assms by (simp add: log_less_iff)
qed

lemma rnd_zero [simp]: "rnd 0 = Fin 0"
  by (simp add: rnd_def)

lemma rnd_repr:
  assumes y: "y \<noteq> 0"
    and f: "\<bar>y\<bar> = real_of_int N * 2 powr real_of_int (e - 52)"
    and e: "expo y \<le> e"
    and b: "\<bar>y\<bar> < 2 ^ 1024"
  shows "rnd y = Fin y"
proof -
  have "\<bar>y\<bar> / ulp y = real_of_int N * (2 powr real_of_int (e - 52) / 2 powr real_of_int (expo y - 52))"
    unfolding f ulp_def by simp
  also have "2 powr real_of_int (e - 52) / 2 powr real_of_int (expo y - 52) =
      2 powr real_of_int (e - expo y)"
    unfolding pow2_diff by simp
  also have "\<dots> = 2 ^ nat (e - expo y)"
    using e by (intro pow2_nat) simp
  finally have q: "\<bar>y\<bar> / ulp y = real_of_int (N * 2 ^ nat (e - expo y))" by simp
  have "real_of_int (rne (\<bar>y\<bar> / ulp y)) = \<bar>y\<bar> / ulp y"
    by (simp only: q rne_of_int)
  then have "real_of_int (rne (\<bar>y\<bar> / ulp y)) * ulp y = \<bar>y\<bar> / ulp y * ulp y"
    by simp
  also have "\<dots> = \<bar>y\<bar>" by simp
  finally have r: "real_of_int (rne (\<bar>y\<bar> / ulp y)) * ulp y = \<bar>y\<bar>" .
  show ?thesis
    using y b by (simp add: rnd_def r Let_def)
qed

lemma rnd_idem:
  assumes "rnd x = Fin y"
  shows "rnd y = Fin y"
proof (cases "y = 0")
  case True
  then show ?thesis by simp
next
  case False
  then have x0: "x \<noteq> 0" using assms by auto
  define N where "N = rne (\<bar>x\<bar> / ulp x)"
  have N0: "0 \<le> N" unfolding N_def by simp
  have c: "\<not> 2 ^ 1024 \<le> real_of_int N * ulp x \<and>
      y = (if 0 < x then real_of_int N * ulp x else - (real_of_int N * ulp x))"
    using assms x0 unfolding N_def rnd_def Let_def by (simp split: if_splits)
  then have lt: "real_of_int N * ulp x < 2 ^ 1024" by simp
  have "\<bar>y\<bar> = \<bar>real_of_int N * ulp x\<bar>" using c by (simp split: if_splits)
  then have ay: "\<bar>y\<bar> = real_of_int N * ulp x" using N0 by (simp add: abs_mult)
  have m: "\<bar>x\<bar> / ulp x < 2 ^ 53"
  proof -
    have "\<bar>x\<bar> < 2 powr (real_of_int (expo x) + 1)" using x0 by (rule abs_less_powr_expo)
    also have "\<dots> = 2 ^ 53 * 2 powr real_of_int (expo x - 52)"
      by (simp only: pow2_succ)
    finally show ?thesis by (simp add: ulp_def field_simps)
  qed
  then have "\<bar>x\<bar> / ulp x \<le> real_of_int (2 ^ 53)" by simp
  then have N53: "N \<le> 2 ^ 53" unfolding N_def by (rule rne_le)
  show ?thesis
  proof (cases "N = 2 ^ 53")
    case True
    have "\<bar>y\<bar> = 2 ^ 53 * 2 powr real_of_int (expo x - 52)"
      by (simp add: ay True ulp_def)
    also have "\<dots> = 2 powr (real_of_int (expo x) + 1)"
      by (simp only: pow2_succ)
    finally have y2: "\<bar>y\<bar> = 2 powr (real_of_int (expo x + 1))" by simp
    have "expo y = expo x + 1"
      using False expo_ge [of x] by (intro expo_eq) (simp_all add: y2)
    moreover have "\<bar>y\<bar> = real_of_int (2 ^ 52) * 2 powr real_of_int (expo x + 1 - 52)"
      unfolding y2 by (simp only: pow2_52)
    ultimately show ?thesis
      using False lt ay by (intro rnd_repr [where N = "2 ^ 52" and e = "expo x + 1"]) simp_all
  next
    case F: False
    then have "N < 2 ^ 53" using N53 by simp
    then have "real_of_int N < 2 ^ 53" by (metis of_int_less_numeral_power_cancel_iff)
    then have "\<bar>y\<bar> < 2 ^ 53 * ulp x" by (simp add: ay)
    also have "\<dots> = 2 ^ 53 * 2 powr real_of_int (expo x - 52)"
      by (simp add: ulp_def)
    also have "\<dots> = 2 powr (real_of_int (expo x) + 1)"
      by (simp only: pow2_succ)
    finally have "expo y \<le> expo x"
      using False expo_ge [of x] by (intro expo_le) simp_all
    then show ?thesis
      using False lt ay by (intro rnd_repr [where N = N and e = "expo x"]) (simp_all add: ulp_def)
  qed
qed

lemma rnd_of_int:
  assumes "\<bar>n\<bar> \<le> 2 ^ 53"
  shows "rnd (real_of_int n) = Fin (real_of_int n)"
proof (cases "n = 0")
  case True
  then show ?thesis by simp
next
  case False
  show ?thesis
  proof (cases "\<bar>n\<bar> = 2 ^ 53")
    case True
    then have a: "\<bar>real_of_int n\<bar> = 2 ^ 53" by (metis of_int_abs of_int_numeral of_int_power)
    have "expo (real_of_int n) \<le> 53"
      using False by (intro expo_le) (simp_all add: a)
    moreover have "\<bar>real_of_int n\<bar> = real_of_int (2 ^ 52) * 2 powr real_of_int (53 - 52)"
      by (simp add: a)
    ultimately show ?thesis
      using False by (intro rnd_repr [where N = "2 ^ 52" and e = 53]) (simp_all add: a)
  next
    case F: False
    then have "\<bar>n\<bar> < 2 ^ 53" using assms by simp
    then have a: "\<bar>real_of_int n\<bar> < 2 ^ 53"
      by (metis of_int_abs of_int_less_numeral_power_cancel_iff)
    have "expo (real_of_int n) \<le> 52"
      using False a by (intro expo_le) simp_all
    moreover have "\<bar>real_of_int n\<bar> = real_of_int \<bar>n\<bar> * 2 powr real_of_int (52 - 52)"
      by simp
    moreover have "\<bar>real_of_int n\<bar> < 2 ^ 1024"
      using a by (rule less_trans) simp
    ultimately show ?thesis
      using False by (intro rnd_repr [where N = "\<bar>n\<bar>" and e = 52]) simp_all
  qed
qed

lemma rnd_unit:
  assumes "0 \<le> x" "x \<le> 1"
  shows "\<exists>y. rnd x = Fin y \<and> 0 \<le> y \<and> y \<le> 1"
proof (cases "x = 0")
  case True
  then show ?thesis by simp
next
  case False
  then have x: "0 < x" using assms by simp
  define N where "N = rne (\<bar>x\<bar> / ulp x)"
  have e: "expo x \<le> 0"
    using False assms by (intro expo_le) simp_all
  define T :: int where "T = 2 ^ nat (52 - expo x)"
  have Tu: "real_of_int T * ulp x = 1"
  proof -
    have "(2::real) powr real_of_int (52 - expo x) = 2 ^ nat (52 - expo x)"
      using e by (intro pow2_nat) simp
    then have "real_of_int T = 2 powr real_of_int (52 - expo x)"
      by (simp add: T_def)
    then have "real_of_int T * ulp x = 2 powr (real_of_int (52 - expo x) + real_of_int (expo x - 52))"
      unfolding ulp_def powr_add by simp
    then show ?thesis by simp
  qed
  have "\<bar>x\<bar> / ulp x \<le> 1 / ulp x" using assms x by (intro divide_right_mono) simp_all
  also have "1 / ulp x = real_of_int T" using Tu by (simp add: field_simps)
  finally have NT: "N \<le> T" unfolding N_def by (rule rne_le)
  have N0: "0 \<le> N" unfolding N_def by simp
  have "real_of_int N * ulp x \<le> real_of_int T * ulp x"
    using NT by (simp add: mult_right_mono)
  then have le1: "real_of_int N * ulp x \<le> 1" using Tu by simp
  have ge0: "0 \<le> real_of_int N * ulp x" using N0 by simp
  have "(1::real) < 2 ^ 1024" by simp
  then have "\<not> 2 ^ 1024 \<le> real_of_int N * ulp x" using le1 by linarith
  then have "rnd x = Fin (real_of_int N * ulp x)"
    using x by (simp add: rnd_def N_def Let_def)
  then show ?thesis using le1 ge0 by blast
qed

lemma rnd_at:
  assumes "x \<noteq> 0" "lo = 2 powr real_of_int e" "lo \<le> \<bar>x\<bar>" "\<bar>x\<bar> < 2 * lo" "- 1022 \<le> e"
    and "u = 2 powr real_of_int (e - 52)"
  shows "rnd x =
     (let y = real_of_int (rne (\<bar>x\<bar> / u)) * u
      in if 2 ^ 1024 \<le> y then (if 0 < x then PInf else MInf)
         else Fin (if 0 < x then y else - y))"
proof -
  have "2 * lo = 2 powr (real_of_int e + 1)" by (simp add: assms(2) powr_add)
  then have "expo x = e" using assms by (intro expo_eq) simp_all
  then show ?thesis using assms(1) by (simp add: rnd_def ulp_def assms(6))
qed

lemma rnd_dyadic:
  assumes "\<bar>m\<bar> < 2 ^ 53" "k \<le> 1074"
  shows "rnd (real_of_int m / 2 ^ k) = Fin (real_of_int m / 2 ^ k)"
proof (cases "m = 0")
  case True
  then show ?thesis by simp
next
  case False
  let ?y = "real_of_int m / 2 ^ k"
  have a: "\<bar>?y\<bar> = real_of_int \<bar>m\<bar> / 2 ^ k" by (simp add: abs_divide)
  have p: "(2::real) powr real_of_int (52 - int k - 52) = 1 / 2 ^ k"
    by (simp add: powr_minus powr_realpow inverse_eq_divide)
  have f: "\<bar>?y\<bar> = real_of_int \<bar>m\<bar> * 2 powr real_of_int (52 - int k - 52)"
    unfolding p a by simp
  have m53: "real_of_int \<bar>m\<bar> < 2 ^ 53"
    using assms(1) by (metis of_int_less_numeral_power_cancel_iff)
  have "(2::real) powr (real_of_int (52 - int k) + 1) = 2 ^ 53 * 2 powr real_of_int (52 - int k - 52)"
    by (simp only: pow2_succ)
  also have "\<dots> = 2 ^ 53 / 2 ^ k" unfolding p by simp
  finally have "\<bar>?y\<bar> < 2 powr (real_of_int (52 - int k) + 1)"
    unfolding a using m53 by (simp add: divide_strict_right_mono)
  then have e: "expo ?y \<le> 52 - int k"
    using False assms(2) by (intro expo_le) simp_all
  have "\<bar>?y\<bar> \<le> real_of_int \<bar>m\<bar>"
    unfolding a by (simp add: field_simps mult_le_cancel_left1)
  also have "\<dots> < 2 ^ 1024" using m53 by (rule less_trans) simp
  finally have b: "\<bar>?y\<bar> < 2 ^ 1024" .
  show ?thesis
    using False by (intro rnd_repr [OF _ f e b]) simp
qed

section \<open>Double operations\<close>

lemma bind_res_simps [simp]:
  "bind_res (Inl e) f = Inl e"
  "bind_res (Inr x) f = f x"
  by (simp_all add: bind_res_def)

lemma rnd_numeral: "numeral w \<le> (2 ^ 53 :: int) \<Longrightarrow> rnd (numeral w) = Fin (numeral w)"
  using rnd_of_int [of "numeral w"] by simp

lemma rnd_neg_numeral:
  "numeral w \<le> (2 ^ 53 :: int) \<Longrightarrow> rnd (- numeral w) = Fin (- numeral w)"
  using rnd_of_int [of "- numeral w"] by simp

lemma rnd_one: "rnd 1 = Fin 1"
  using rnd_of_int [of 1] by simp

lemma rnd_neg_one: "rnd (- 1) = Fin (- 1)"
  using rnd_of_int [of "- 1"] by simp

lemma rnd_half: "numeral w < (2 ^ 53 :: int) \<Longrightarrow> rnd (numeral w / 2) = Fin (numeral w / 2)"
  using rnd_dyadic [of "numeral w" 1] by simp

lemma rnd_neg_half:
  "numeral w < (2 ^ 53 :: int) \<Longrightarrow> rnd (- (numeral w / 2)) = Fin (- (numeral w / 2))"
  using rnd_dyadic [of "- numeral w" 1] by simp

lemma rnd_one_half: "rnd (1 / 2) = Fin (1 / 2)"
  using rnd_dyadic [of 1 1] by simp

lemma rnd_neg_one_half: "rnd (- (1 / 2)) = Fin (- (1 / 2))"
  using rnd_dyadic [of "- 1" 1] by simp

lemmas rnd_simps = rnd_numeral rnd_neg_numeral rnd_one rnd_neg_one rnd_half rnd_neg_half
  rnd_one_half rnd_neg_one_half

lemma int_ok_53: "int_ok n \<Longrightarrow> \<bar>n\<bar> \<le> 2 ^ 53"
  unfolding int_ok_def by (simp add: abs_if)

lemma rnd_int_ok: "int_ok n \<Longrightarrow> rnd (real_of_int n) = Fin (real_of_int n)"
  by (intro rnd_of_int int_ok_53)

lemma chk_ok: "int_ok n \<Longrightarrow> chk n = Inr n"
  by (simp add: chk_def)

lemma to_int_of_int: "to_int (Fin (real_of_int n)) = chk n"
  by (simp add: to_int_def)

lemma is_double_rnd: "is_double (rnd x)"
  by (cases "rnd x") (simp_all add: is_double_def rnd_idem)

lemma is_double_zero [simp]: "is_double (Fin 0)"
  by (simp add: is_double_def)


lemma is_double_fadd: "is_double (fadd a b)"
  by (cases a; cases b) (simp_all add: fadd_def is_double_rnd, simp_all add: is_double_def)



lemma fadd_zero_left: "is_double a \<Longrightarrow> fadd (Fin 0) a = a"
  by (cases a) (simp_all add: fadd_def is_double_def)






lemma finite_d_Fin [simp]: "finite_d (Fin x)"
  by (simp add: finite_d_def)

lemma finite_dE: "finite_d a \<Longrightarrow> \<exists>x. a = Fin x"
  by (cases a) (simp_all add: finite_d_def)

section \<open>The start of the window\<close>

lemma fdiv_half: "int_ok J \<Longrightarrow> fdiv (double_of_int J) (Fin 2) = Fin (real_of_int J / 2)"
proof -
  assume "int_ok J"
  then have "\<bar>J\<bar> < 2 ^ 53" unfolding int_ok_def by (simp add: abs_if)
  then have "rnd (real_of_int J / 2 ^ 1) = Fin (real_of_int J / 2 ^ 1)"
    by (intro rnd_dyadic) simp_all
  then show ?thesis by (simp add: fdiv_def double_of_int_def)
qed

lemma k_start_eq:
  assumes "start_ok t J"
  shows "k_start t J = Inr (window_start t J)"
proof -
  have J: "int_ok J" using assms by (simp add: start_ok_def)
  obtain d where d: "fsub t (Fin (real_of_int J / 2)) = Fin d"
    using assms finite_dE by (auto simp: start_ok_def)
  have w: "window_start t J = 1 + \<lfloor>d\<rfloor>" by (simp add: window_start_def d)
  have ok: "int_ok (1 + \<lfloor>d\<rfloor>)" using assms by (simp add: start_ok_def w)
  have "fadd (Fin 1) (Fin (real_of_int \<lfloor>d\<rfloor>)) = rnd (real_of_int (1 + \<lfloor>d\<rfloor>))"
    by (simp add: fadd_def)
  also have "\<dots> = Fin (real_of_int (1 + \<lfloor>d\<rfloor>))" using ok by (rule rnd_int_ok)
  finally have "k_start t J = chk (1 + \<lfloor>d\<rfloor>)"
    unfolding k_start_def fdiv_half [OF J] d ffloor_def by (simp only: double.case to_int_of_int)
  then show ?thesis using ok by (simp add: chk_ok w)
qed

lemma int_ok_between: "int_ok a \<Longrightarrow> int_ok b \<Longrightarrow> a \<le> n \<Longrightarrow> n \<le> b \<Longrightarrow> int_ok n"
  by (simp add: int_ok_def)

lemma start_ok_step:
  assumes "start_ok t J" "0 \<le> jj" "jj < J"
  shows "int_ok (window_start t J + jj)" "int_ok (window_start t J + jj + 1)"
  using assms by (auto simp: start_ok_def int_ok_def)

section \<open>The quotient of two ints\<close>

text \<open>
  \<^verbatim>\<open>floor(k / (double) K)\<close> divides two exactly converted \<^verbatim>\<open>int\<close>s. The rounding error of the
  quotient is too small to move it across an integer, so the floor of the double
  quotient is the floor of the exact quotient.
\<close>

lemma rne_err: "\<bar>real_of_int (rne m) - m\<bar> \<le> 1 / 2"
proof -
  define f where "f = \<lfloor>m\<rfloor>"
  have "real_of_int f \<le> m" "m < real_of_int f + 1" unfolding f_def by linarith+
  then show ?thesis unfolding rne_def Let_def f_def [symmetric] by (auto simp: abs_if)
qed

lemma rnd_rel_err:
  assumes lo: "2 powr (- 1022) \<le> \<bar>x\<bar>" and hi: "\<bar>x\<bar> \<le> 2 ^ 1000"
  shows "\<exists>y. rnd x = Fin y \<and> \<bar>y - x\<bar> \<le> \<bar>x\<bar> / 2 ^ 53"
proof -
  have x0: "x \<noteq> 0" using lo by (auto simp: not_le [symmetric])
  have px: "0 < \<bar>x\<bar>" using x0 by simp
  define e where "e = \<lfloor>log 2 \<bar>x\<bar>\<rfloor>"
  have "log 2 (2 powr (- 1022)) \<le> log 2 \<bar>x\<bar>" using lo px by (subst log_le_cancel_iff) simp_all
  then have "- 1022 \<le> log 2 \<bar>x\<bar>" by simp
  then have eg: "- 1022 \<le> e" unfolding e_def by (simp add: le_floor_iff)
  then have ex: "expo x = e" by (simp add: expo_def e_def)
  have "real_of_int e \<le> log 2 \<bar>x\<bar>" unfolding e_def by simp
  then have "2 powr real_of_int e \<le> 2 powr log 2 \<bar>x\<bar>" by (simp add: powr_le_cancel_iff)
  then have pe: "2 powr real_of_int e \<le> \<bar>x\<bar>" using px by simp
  define u where "u = ulp x"
  have u: "u = 2 powr real_of_int e / 2 ^ 52"
    unfolding u_def ulp_def ex by (simp add: powr_diff powr_realpow [symmetric])
  have up: "0 < u" unfolding u_def by simp
  have ux: "u \<le> \<bar>x\<bar> / 2 ^ 52" unfolding u using pe by (simp add: divide_right_mono)
  define N where "N = rne (\<bar>x\<bar> / u)"
  have "\<bar>real_of_int N - \<bar>x\<bar> / u\<bar> \<le> 1 / 2" unfolding N_def by (rule rne_err)
  then have "\<bar>real_of_int N - \<bar>x\<bar> / u\<bar> * u \<le> 1 / 2 * u"
    using up by (intro mult_right_mono) simp_all
  moreover have "\<bar>real_of_int N - \<bar>x\<bar> / u\<bar> * u = \<bar>real_of_int N * u - \<bar>x\<bar>\<bar>"
  proof -
    have "\<bar>real_of_int N - \<bar>x\<bar> / u\<bar> * u = \<bar>(real_of_int N - \<bar>x\<bar> / u) * u\<bar>"
      using up by (simp add: abs_mult)
    also have "(real_of_int N - \<bar>x\<bar> / u) * u = real_of_int N * u - \<bar>x\<bar>"
      using up by (simp add: field_simps)
    finally show ?thesis .
  qed
  ultimately have d: "\<bar>real_of_int N * u - \<bar>x\<bar>\<bar> \<le> u / 2" by simp
  have "u / 2 \<le> \<bar>x\<bar> / 2 ^ 52 / 2" using ux by simp
  also have "\<dots> = \<bar>x\<bar> / 2 ^ 53" by simp
  finally have d2: "\<bar>real_of_int N * u - \<bar>x\<bar>\<bar> \<le> \<bar>x\<bar> / 2 ^ 53" using d by simp
  have "\<bar>x\<bar> / 2 ^ 53 \<le> \<bar>x\<bar>" using px by (simp add: field_simps)
  then have "real_of_int N * u \<le> 2 * \<bar>x\<bar>" using d2 by linarith
  also have "\<dots> \<le> 2 * 2 ^ 1000" using hi by simp
  also have "\<dots> < (2::real) ^ 1024" by simp
  finally have nov: "\<not> 2 ^ 1024 \<le> real_of_int N * u" by simp
  have r: "rnd x = Fin (if 0 < x then real_of_int N * u else - (real_of_int N * u))"
    using x0 nov by (simp add: rnd_def Let_def N_def u_def)
  show ?thesis
  proof (cases "0 < x")
    case True
    then show ?thesis using r d2 by (auto simp: abs_if split: if_splits)
  next
    case False
    then have xn: "x < 0" using x0 by simp
    have "- (real_of_int N * u) - x = - (real_of_int N * u - \<bar>x\<bar>)" using xn by simp
    then have "\<bar>- (real_of_int N * u) - x\<bar> = \<bar>real_of_int N * u - \<bar>x\<bar>\<bar>"
      by (simp only: abs_minus_cancel)
    then show ?thesis using r d2 False by simp
  qed
qed

lemma floor_quotient:
  assumes k: "int_ok k" and K: "0 < K" "int_ok K"
  shows "to_int (ffloor (fdiv (double_of_int k) (double_of_int K))) = Inr (k div K)"
proof -
  let ?x = "real_of_int k / real_of_int K"
  let ?q = "k div K"
  have Kp: "0 < real_of_int K" using K by simp
  have qok: "int_ok ?q"
  proof -
    have "min k 0 \<le> k div K \<and> k div K \<le> max k 0"
    proof (cases "0 \<le> k")
      case True
      have "k div K \<le> k div 1" using True K(1) by (intro zdiv_mono2) simp_all
      moreover have "0 \<le> k div K" using True K(1) by (simp add: pos_imp_zdiv_nonneg_iff)
      ultimately show ?thesis using True by simp
    next
      case False
      then have n: "k < 0" by simp
      have "k div 1 \<le> k div K" using n K(1) by (intro zdiv_mono2_neg) simp_all
      moreover have "k div K < 0" using n K(1) by (simp add: pos_imp_zdiv_neg_iff)
      ultimately show ?thesis using n by simp
    qed
    then show ?thesis using k by (auto simp: int_ok_def)
  qed
  have "\<exists>y. rnd ?x = Fin y \<and> \<lfloor>y\<rfloor> = ?q"
  proof (cases "k mod K = 0")
    case True
    then have "k = ?q * K" by (simp add: mod_eq_0_iff_dvd)
    then have "real_of_int k = real_of_int ?q * real_of_int K" by (metis of_int_mult)
    then have "?x = real_of_int ?q" using Kp by (simp add: field_simps)
    moreover have "rnd (real_of_int ?q) = Fin (real_of_int ?q)" using qok by (rule rnd_int_ok)
    ultimately show ?thesis by simp
  next
    case False
    define r where "r = k mod K"
    have "0 \<le> k mod K" "k mod K < K" using K(1) by simp_all
    then have r: "1 \<le> r" "r \<le> K - 1"
      using False unfolding r_def by linarith+
    have "k = ?q * K + r" by (simp add: r_def)
    then have "real_of_int k = real_of_int ?q * real_of_int K + real_of_int r"
      by (metis of_int_add of_int_mult)
    then have x: "?x = real_of_int ?q + real_of_int r / real_of_int K"
      using Kp by (simp add: field_simps)
    have k0: "k \<noteq> 0" using False by auto
    have ak: "1 \<le> \<bar>real_of_int k\<bar>" using k0 by (metis of_int_abs abs_ge_self int_one_le_iff_zero_less of_int_1_le_iff zero_less_abs_iff)
    have akh: "\<bar>real_of_int k\<bar> \<le> 2 ^ 31"
    proof -
      have "\<bar>k\<bar> \<le> 2 ^ 31" using k by (auto simp: int_ok_def abs_if)
      then show ?thesis by (metis of_int_abs of_int_le_numeral_power_cancel_iff)
    qed
    have Kh: "real_of_int K \<le> 2 ^ 31"
    proof -
      have "K \<le> 2 ^ 31" using K(2) by (simp add: int_ok_def)
      then show ?thesis by (metis of_int_le_numeral_power_cancel_iff)
    qed
    have ax: "\<bar>?x\<bar> = \<bar>real_of_int k\<bar> / real_of_int K" using Kp by (simp add: abs_divide)
    have lo: "2 powr (- 1022) \<le> \<bar>?x\<bar>"
    proof -
      have "(2::real) powr (- 1022) \<le> 2 powr (- 31)" by (simp add: powr_le_cancel_iff)
      also have "\<dots> = 1 / 2 ^ 31" by (simp add: powr_minus powr_realpow [symmetric] inverse_eq_divide)
      also have "\<dots> \<le> 1 / real_of_int K" using Kp Kh by (simp add: frac_le)
      also have "\<dots> \<le> \<bar>real_of_int k\<bar> / real_of_int K" using ak Kp by (simp add: divide_right_mono)
      finally show ?thesis unfolding ax .
    qed
    have K1: "1 \<le> real_of_int K" using K(1) by simp
    have hi: "\<bar>?x\<bar> \<le> 2 ^ 1000"
    proof -
      have "\<bar>real_of_int k\<bar> / real_of_int K \<le> \<bar>real_of_int k\<bar> / 1"
        using K1 by (intro divide_left_mono) simp_all
      also have "\<dots> \<le> 2 ^ 31" using akh by simp
      also have "\<dots> \<le> (2::real) ^ 1000" by simp
      finally show ?thesis unfolding ax .
    qed
    obtain y where y: "rnd ?x = Fin y" and e: "\<bar>y - ?x\<bar> \<le> \<bar>?x\<bar> / 2 ^ 53"
      using rnd_rel_err [OF lo hi] by blast
    have "\<bar>real_of_int k\<bar> / real_of_int K \<le> 2 ^ 31 / real_of_int K"
      using akh Kp by (intro divide_right_mono) simp_all
    then have "\<bar>?x\<bar> / 2 ^ 53 \<le> 2 ^ 31 / real_of_int K / 2 ^ 53"
      unfolding ax by (rule divide_right_mono) simp
    also have "\<dots> < 1 / real_of_int K" using Kp by (simp add: field_simps)
    finally have e2: "\<bar>y - ?x\<bar> < 1 / real_of_int K" using e by simp
    have rl: "1 / real_of_int K \<le> real_of_int r / real_of_int K"
      using r(1) Kp by (simp add: divide_right_mono)
    have "real_of_int r \<le> real_of_int K - 1" using r(2) by (metis of_int_1 of_int_diff of_int_le_iff)
    then have "real_of_int r / real_of_int K \<le> (real_of_int K - 1) / real_of_int K"
      using Kp by (simp add: divide_right_mono)
    also have "\<dots> = 1 - 1 / real_of_int K" using Kp by (simp add: field_simps)
    finally have ru: "real_of_int r / real_of_int K \<le> 1 - 1 / real_of_int K" .
    have "real_of_int ?q < y" "y < real_of_int ?q + 1"
      using e2 rl ru unfolding x by (auto simp: abs_if split: if_splits)
    then have "\<lfloor>y\<rfloor> = ?q" by (simp add: floor_eq_iff)
    then show ?thesis using y by blast
  qed
  then obtain y where y: "rnd ?x = Fin y" "\<lfloor>y\<rfloor> = ?q" by blast
  have "fdiv (double_of_int k) (double_of_int K) = Fin y"
    using K(1) y(1) by (simp add: fdiv_def double_of_int_def)
  then show ?thesis using qok by (simp add: ffloor_def y(2) to_int_of_int chk_ok)
qed

section \<open>Loops and periodic indices\<close>

text \<open>
  A loop whose body adds a term to each of two running sums returns the accumulated
  terms; a counting loop is the iteration over the list of its indices.
\<close>

lemma periodic_index_eq:
  "K \<noteq> 0 \<Longrightarrow> periodic_index k K = Inr (k mod K, k div K)"
  by (simp add: periodic_index_def Let_def floor_divide_of_int_eq minus_mult_div_eq_mod)

lemma mymod_eq: "K \<noteq> 0 \<Longrightarrow> mymod k K = Inr (k mod K)"
  by (simp add: mymod_def periodic_index_eq)

lemma for_loop_acc:
  assumes "\<And>jj s. lo \<le> jj \<Longrightarrow> jj < n \<Longrightarrow>
     body jj (k0 + (jj - lo), s) = Inr (k0 + (jj - lo) + 1, cadd s (f jj))"
  shows "for_loop lo n body (k0, s) =
     Inr (k0 + max 0 (n - lo), foldl (\<lambda>s jj. cadd s (f jj)) s [lo..n - 1])"
  using assms
proof (induction "nat (n - lo)" arbitrary: lo k0 s)
  case 0
  then have "\<not> lo < n" by simp
  then show ?case by (simp add: for_loop.simps [of lo])
next
  case (Suc m)
  then have lt: "lo < n" by linarith
  have m: "m = nat (n - (lo + 1))" using Suc.hyps(2) by linarith
  have u: "[lo..n - 1] = lo # [lo + 1..n - 1]" using lt by (simp add: upto_rec1)
  have step: "body lo (k0, s) = Inr (k0 + 1, cadd s (f lo))"
    using Suc.prems [of lo s] lt by simp
  have rest: "for_loop (lo + 1) n body (k0 + 1, cadd s (f lo)) =
     Inr (k0 + 1 + max 0 (n - (lo + 1)),
          foldl (\<lambda>s jj. cadd s (f jj)) (cadd s (f lo)) [lo + 1..n - 1])"
  proof (rule Suc.hyps(1) [OF m])
    fix jj s'
    assume "lo + 1 \<le> jj" "jj < n"
    then show "body jj (k0 + 1 + (jj - (lo + 1)), s') =
       Inr (k0 + 1 + (jj - (lo + 1)) + 1, cadd s' (f jj))"
      using Suc.prems [of jj s'] by (simp add: algebra_simps)
  qed
  show ?case
    using lt by (subst for_loop.simps) (simp add: step rest u)
qed

lemma for_loop_accumulate:
  assumes "\<And>jj s. 0 \<le> jj \<Longrightarrow> jj < n \<Longrightarrow>
     body jj (k0 + jj, s) = Inr (k0 + jj + 1, cadd s (f jj))"
  shows "for_loop 0 n body (k0, Fin 0, Fin 0) = Inr (k0 + max 0 n, accumulate f n)"
proof -
  have "for_loop 0 n body (k0, (Fin 0, Fin 0)) =
     Inr (k0 + max 0 (n - 0), foldl (\<lambda>s jj. cadd s (f jj)) (Fin 0, Fin 0) [0..n - 1])"
    by (rule for_loop_acc) (simp add: assms)
  then show ?thesis by (simp add: accumulate_def)
qed

lemma for_loop_iter: "for_loop lo n body s = iter body [lo..n - 1] s"
proof (induction "nat (n - lo)" arbitrary: lo s)
  case 0
  then have "\<not> lo < n" by simp
  then show ?case by (simp add: for_loop.simps [of lo])
next
  case (Suc m)
  then have lt: "lo < n" by linarith
  have m: "m = nat (n - (lo + 1))" using Suc.hyps(2) by linarith
  have u: "[lo..n - 1] = lo # [lo + 1..n - 1]" using lt by (simp add: upto_rec1)
  show ?case
    using lt by (subst for_loop.simps) (simp add: u Suc.hyps(1) [OF m] split: sum.splits)
qed

lemma accumulate_cong:
  assumes "\<And>jj. 0 \<le> jj \<Longrightarrow> jj < n \<Longrightarrow> f jj = g jj"
  shows "accumulate f n = accumulate g n"
proof -
  have r: "foldl (\<lambda>s jj. cadd s (f jj)) s xs = foldl (\<lambda>s jj. cadd s (g jj)) s xs"
    if "\<And>x. x \<in> set xs \<Longrightarrow> f x = g x" for xs s
    using that by (induction xs arbitrary: s) simp_all
  show ?thesis unfolding accumulate_def by (rule r) (simp add: assms)
qed

section \<open>Reads inside the tables and the grid\<close>

lemma ptr_read_in: "in_tab h n \<Longrightarrow> ptr_read h n = Inr (tab_at h n)"
  by (simp add: ptr_read_def rd_def in_tab_def tab_at_def)

lemma ptr_read_add: "ptr_read (ptr_add h n) i = ptr_read h (n + i)"
  by (simp add: ptr_read_def ptr_add_def add.assoc)

lemma offset_code:
  "fmul (fsub t (double_of_int k)) (double_of_int L) = offset t k L"
  by (simp add: offset_def double_of_int_def)

lemma lookup0_in:
  assumes "finite_d p" "int_ok (index0 p)" "in_tab h (index0 p)"
  shows "lookup0 h p = Inr (tab_at h (index0 p))"
proof -
  obtain x where p: "p = Fin x" using assms(1) finite_dE by blast
  show ?thesis
    using assms(2,3) by (simp add: lookup0_def iround_int_def p index0_def chk_ok ptr_read_in)
qed

lemma lookup1_in:
  assumes "finite_d p" "int_ok (index1 p)" "in_tab h (index1 p)" "in_tab h (index1 p + 1)"
  shows "lookup1 h p =
    Inr (fadd (fmul (fsub (Fin 1) (fsub p (Fin (real_of_int (index1 p))))) (tab_at h (index1 p)))
              (fmul (fsub p (Fin (real_of_int (index1 p)))) (tab_at h (index1 p + 1))))"
proof -
  obtain x where p: "p = Fin x" using assms(1) finite_dE by blast
  have i: "index1 p = \<lfloor>x\<rfloor>" by (simp add: index1_def p)
  have t: "to_int (ffloor (Fin x)) = Inr \<lfloor>x\<rfloor>"
    using assms(2) unfolding i by (simp add: ffloor_def to_int_of_int chk_ok)
  show ?thesis
    using assms(3,4) unfolding i
    by (simp add: lookup1_def t Let_def ptr_read_add ptr_read_in alf_def double_of_int_def p)
qed

lemma grid_index_bounds:
  fixes a b :: int
  assumes "0 \<le> a" "a < K2'" "0 \<le> b" "b < K1'"
  shows "0 \<le> a * K1' + b" "a * K1' + b < K1' * K2'"
proof -
  have k1: "0 < K1'" using assms by linarith
  show "0 \<le> a * K1' + b" using assms k1 by simp
  have "a * K1' + b < a * K1' + K1'" using assms by simp
  also have "\<dots> = (a + 1) * K1'" by (simp add: algebra_simps)
  also have "\<dots> \<le> K2' * K1'" using assms k1 by (intro mult_right_mono) auto
  finally show "a * K1' + b < K1' * K2'" by (simp add: mult.commute)
qed

lemma rd_grid:
  assumes "grid_ok a"
  shows "rd (r_ck a) ((k2 mod K2 a) * K1 a + k1 mod K1 a) =
           Inr (fst (ck a ((k2 mod K2 a) * K1 a + k1 mod K1 a)))"
    and "rd (i_ck a) ((k2 mod K2 a) * K1 a + k1 mod K1 a) =
           Inr (snd (ck a ((k2 mod K2 a) * K1 a + k1 mod K1 a)))"
proof -
  have p: "0 < K1 a" "0 < K2 a" using assms by (simp_all add: grid_ok_def)
  have b: "0 \<le> (k2 mod K2 a) * K1 a + k1 mod K1 a"
          "(k2 mod K2 a) * K1 a + k1 mod K1 a < K1 a * K2 a"
    using grid_index_bounds [of "k2 mod K2 a" "K2 a" "k1 mod K1 a" "K1 a"] p by simp_all
  show "rd (r_ck a) ((k2 mod K2 a) * K1 a + k1 mod K1 a) =
           Inr (fst (ck a ((k2 mod K2 a) * K1 a + k1 mod K1 a)))"
    using b assms by (simp add: rd_def grid_ok_def ck_def)
  show "rd (i_ck a) ((k2 mod K2 a) * K1 a + k1 mod K1 a) =
           Inr (snd (ck a ((k2 mod K2 a) * K1 a + k1 mod K1 a)))"
    using b assms by (simp add: rd_def grid_ok_def ck_def)
qed

lemma smod_2_odd: "wrap smod 2 \<noteq> 0 \<longleftrightarrow> odd (wrap :: int)"
  by (auto simp add: signed_modulo_int_def sgn_if abs_if mod_2_eq_odd dvd_neg_div split: if_splits)

lemma sign_flip_odd:
  "sign_flip pf flip wrap c = (if pf \<and> flip \<noteq> 0 \<and> odd wrap then fneg c else c)"
  by (simp add: sign_flip_def smod_2_odd)

lemma sign_flip_off: "\<not> pf \<or> flip = 0 \<Longrightarrow> sign_flip pf flip wrap c = c"
  by (auto simp: sign_flip_def)

section \<open>One query point\<close>

text \<open>
  Each evaluator, at a query point whose windows are representable and inside the
  tables, returns the separable double sum with its own weights.
\<close>

lemma separable_sum_inner:
  "separable_sum a mul w1 w2 t1 t2 =
     accumulate (\<lambda>jj2. mul (w2 (window_start t2 (J2 a) + jj2))
        (inner_sum a mul w1 t1 (window_start t2 (J2 a) + jj2))) (J2 a)"
  by (simp add: separable_sum_def inner_sum_def)

lemma window_ok0_at:
  assumes "window_ok0 h J L t" "0 \<le> jj" "jj < J"
  shows "lookup0 h (offset t (window_start t J + jj) L) = Inr (weight0 h L t (window_start t J + jj))"
    and "chk (window_start t J + jj + 1) = Inr (window_start t J + jj + 1)"
proof -
  have "finite_d (offset t (window_start t J + jj) L)"
       "int_ok (index0 (offset t (window_start t J + jj) L))"
       "in_tab h (index0 (offset t (window_start t J + jj) L))"
    using assms by (simp_all add: window_ok0_def)
  then show "lookup0 h (offset t (window_start t J + jj) L) =
      Inr (weight0 h L t (window_start t J + jj))"
    unfolding weight0_def by (rule lookup0_in)
  have "start_ok t J" using assms(1) by (simp add: window_ok0_def)
  then show "chk (window_start t J + jj + 1) = Inr (window_start t J + jj + 1)"
    using assms(2,3) by (intro chk_ok start_ok_step)
qed

lemma window_ok1_at:
  assumes "window_ok1 h J L t" "0 \<le> jj" "jj < J"
  shows "lookup1 h (offset t (window_start t J + jj) L) = Inr (weight1 h L t (window_start t J + jj))"
    and "chk (window_start t J + jj + 1) = Inr (window_start t J + jj + 1)"
proof -
  have "finite_d (offset t (window_start t J + jj) L)"
       "int_ok (index1 (offset t (window_start t J + jj) L))"
       "in_tab h (index1 (offset t (window_start t J + jj) L))"
       "in_tab h (index1 (offset t (window_start t J + jj) L) + 1)"
    using assms by (simp_all add: window_ok1_def)
  then show "lookup1 h (offset t (window_start t J + jj) L) =
      Inr (weight1 h L t (window_start t J + jj))"
    unfolding weight1_def Let_def by (rule lookup1_in)
  have "start_ok t J" using assms(1) by (simp add: window_ok1_def)
  then show "chk (window_start t J + jj + 1) = Inr (window_start t J + jj + 1)"
    using assms(2,3) by (intro chk_ok start_ok_step)
qed

lemma window_ok0_start: "window_ok0 h J L t \<Longrightarrow> k_start t J = Inr (window_start t J)"
  by (simp add: window_ok0_def k_start_eq)

lemma window_ok1_start: "window_ok1 h J L t \<Longrightarrow> k_start t J = Inr (window_start t J)"
  by (simp add: window_ok1_def k_start_eq)

lemma inner0_real_loop:
  assumes g: "grid_ok a" and w: "window_ok0 h1 (J1 a) (L1 a) t1"
  shows "for_loop 0 (J1 a) (inner0_real pf a h1 t1 ((k2 mod K2 a) * K1 a))
           (window_start t1 (J1 a), Fin 0, Fin 0) =
     Inr (window_start t1 (J1 a) + max 0 (J1 a),
          inner_sum a smul (w_real0 pf (flip1 a) (K1 a) h1 (L1 a) t1) t1 k2)"
  unfolding inner_sum_def
proof (rule for_loop_accumulate)
  fix jj :: int and s :: dcomplex
  assume jj: "0 \<le> jj" "jj < J1 a"
  obtain sr si where s: "s = (sr, si)" by (cases s)
  have K: "K1 a \<noteq> 0" using g by (simp add: grid_ok_def)
  show "inner0_real pf a h1 t1 ((k2 mod K2 a) * K1 a) jj (window_start t1 (J1 a) + jj, s) =
     Inr (window_start t1 (J1 a) + jj + 1,
          cadd s (smul (w_real0 pf (flip1 a) (K1 a) h1 (L1 a) t1 (window_start t1 (J1 a) + jj))
            (ck a ((k2 mod K2 a) * K1 a + (window_start t1 (J1 a) + jj) mod K1 a))))"
    unfolding inner0_real_def s prod.case Let_def offset_code
    by (simp add: window_ok0_at [OF w jj] periodic_index_eq [OF K] rd_grid [OF g]
          cadd_def smul_def w_real0_def)
qed

lemma point0_real_sum:
  assumes g: "grid_ok a"
    and w1: "window_ok0 h1 (J1 a) (L1 a) t1"
    and w2: "window_ok0 h2 (J2 a) (L2 a) t2"
  shows "point0_real pf a h1 h2 t1 t2 =
     Inr (separable_sum a smul (w_real0 pf (flip1 a) (K1 a) h1 (L1 a) t1)
                               (w_real0 pf (flip2 a) (K2 a) h2 (L2 a) t2) t1 t2)"
proof -
  let ?W1 = "w_real0 pf (flip1 a) (K1 a) h1 (L1 a) t1"
  let ?W2 = "w_real0 pf (flip2 a) (K2 a) h2 (L2 a) t2"
  have K: "K2 a \<noteq> 0" using g by (simp add: grid_ok_def)
  have "for_loop 0 (J2 a) (outer0_real pf a h1 h2 t1 t2 (window_start t1 (J1 a)))
          (window_start t2 (J2 a), Fin 0, Fin 0) =
        Inr (window_start t2 (J2 a) + max 0 (J2 a), separable_sum a smul ?W1 ?W2 t1 t2)"
    unfolding separable_sum_inner
  proof (rule for_loop_accumulate)
    fix jj :: int and s :: dcomplex
    assume jj: "0 \<le> jj" "jj < J2 a"
    obtain sr si where s: "s = (sr, si)" by (cases s)
    show "outer0_real pf a h1 h2 t1 t2 (window_start t1 (J1 a)) jj (window_start t2 (J2 a) + jj, s) =
       Inr (window_start t2 (J2 a) + jj + 1,
            cadd s (smul (?W2 (window_start t2 (J2 a) + jj))
              (inner_sum a smul ?W1 t1 (window_start t2 (J2 a) + jj))))"
      unfolding outer0_real_def s prod.case Let_def offset_code
      by (simp add: window_ok0_at [OF w2 jj] periodic_index_eq [OF K] inner0_real_loop [OF g w1]
            case_prod_unfold cadd_def smul_def w_real0_def)
  qed
  then show ?thesis
    by (simp add: point0_real_def window_ok0_start [OF w1] window_ok0_start [OF w2])
qed

lemma inner1_real_loop:
  assumes g: "grid_ok a" and w: "window_ok1 h1 (J1 a) (L1 a) t1"
  shows "for_loop 0 (J1 a) (inner1_real pf a h1 t1 ((k2 mod K2 a) * K1 a))
           (window_start t1 (J1 a), Fin 0, Fin 0) =
     Inr (window_start t1 (J1 a) + max 0 (J1 a),
          inner_sum a smul (w_real1 pf (flip1 a) (K1 a) h1 (L1 a) t1) t1 k2)"
  unfolding inner_sum_def
proof (rule for_loop_accumulate)
  fix jj :: int and s :: dcomplex
  assume jj: "0 \<le> jj" "jj < J1 a"
  obtain sr si where s: "s = (sr, si)" by (cases s)
  have K: "K1 a \<noteq> 0" using g by (simp add: grid_ok_def)
  show "inner1_real pf a h1 t1 ((k2 mod K2 a) * K1 a) jj (window_start t1 (J1 a) + jj, s) =
     Inr (window_start t1 (J1 a) + jj + 1,
          cadd s (smul (w_real1 pf (flip1 a) (K1 a) h1 (L1 a) t1 (window_start t1 (J1 a) + jj))
            (ck a ((k2 mod K2 a) * K1 a + (window_start t1 (J1 a) + jj) mod K1 a))))"
    unfolding inner1_real_def s prod.case Let_def offset_code
    by (simp add: window_ok1_at [OF w jj] periodic_index_eq [OF K] rd_grid [OF g]
          cadd_def smul_def w_real1_def)
qed

lemma point1_real_sum:
  assumes g: "grid_ok a"
    and w1: "window_ok1 h1 (J1 a) (L1 a) t1"
    and w2: "window_ok1 h2 (J2 a) (L2 a) t2"
  shows "point1_real pf a h1 h2 t1 t2 =
     Inr (separable_sum a smul (w_real1 pf (flip1 a) (K1 a) h1 (L1 a) t1)
                               (w_real1 pf (flip2 a) (K2 a) h2 (L2 a) t2) t1 t2)"
proof -
  let ?W1 = "w_real1 pf (flip1 a) (K1 a) h1 (L1 a) t1"
  let ?W2 = "w_real1 pf (flip2 a) (K2 a) h2 (L2 a) t2"
  have K: "K2 a \<noteq> 0" using g by (simp add: grid_ok_def)
  have "for_loop 0 (J2 a) (outer1_real pf a h1 h2 t1 t2 (window_start t1 (J1 a)))
          (window_start t2 (J2 a), Fin 0, Fin 0) =
        Inr (window_start t2 (J2 a) + max 0 (J2 a), separable_sum a smul ?W1 ?W2 t1 t2)"
    unfolding separable_sum_inner
  proof (rule for_loop_accumulate)
    fix jj :: int and s :: dcomplex
    assume jj: "0 \<le> jj" "jj < J2 a"
    obtain sr si where s: "s = (sr, si)" by (cases s)
    show "outer1_real pf a h1 h2 t1 t2 (window_start t1 (J1 a)) jj (window_start t2 (J2 a) + jj, s) =
       Inr (window_start t2 (J2 a) + jj + 1,
            cadd s (smul (?W2 (window_start t2 (J2 a) + jj))
              (inner_sum a smul ?W1 t1 (window_start t2 (J2 a) + jj))))"
      unfolding outer1_real_def s prod.case Let_def offset_code
      by (simp add: window_ok1_at [OF w2 jj] periodic_index_eq [OF K] inner1_real_loop [OF g w1]
            case_prod_unfold cadd_def smul_def w_real1_def)
  qed
  then show ?thesis
    by (simp add: point1_real_def window_ok1_start [OF w1] window_ok1_start [OF w2])
qed

lemma inner0_complex_loop:
  assumes g: "grid_ok a"
    and wr: "window_ok0 rh1 (J1 a) (L1 a) t1" and wi: "window_ok0 ih1 (J1 a) (L1 a) t1"
  shows "for_loop 0 (J1 a) (inner0_complex a rh1 ih1 t1 ((k2 mod K2 a) * K1 a))
           (window_start t1 (J1 a), Fin 0, Fin 0) =
     Inr (window_start t1 (J1 a) + max 0 (J1 a),
          inner_sum a cmul (w_complex0 rh1 ih1 (L1 a) t1) t1 k2)"
  unfolding inner_sum_def
proof (rule for_loop_accumulate)
  fix jj :: int and s :: dcomplex
  assume jj: "0 \<le> jj" "jj < J1 a"
  obtain sr si where s: "s = (sr, si)" by (cases s)
  have K: "K1 a \<noteq> 0" using g by (simp add: grid_ok_def)
  show "inner0_complex a rh1 ih1 t1 ((k2 mod K2 a) * K1 a) jj (window_start t1 (J1 a) + jj, s) =
     Inr (window_start t1 (J1 a) + jj + 1,
          cadd s (cmul (w_complex0 rh1 ih1 (L1 a) t1 (window_start t1 (J1 a) + jj))
            (ck a ((k2 mod K2 a) * K1 a + (window_start t1 (J1 a) + jj) mod K1 a))))"
    unfolding inner0_complex_def s prod.case Let_def offset_code
    by (simp add: window_ok0_at [OF wr jj] window_ok0_at [OF wi jj] mymod_eq [OF K]
          rd_grid [OF g] cadd_def cmul_def w_complex0_def)
qed

lemma point0_complex_sum:
  assumes g: "grid_ok a"
    and wr1: "window_ok0 rh1 (J1 a) (L1 a) t1" and wi1: "window_ok0 ih1 (J1 a) (L1 a) t1"
    and wr2: "window_ok0 rh2 (J2 a) (L2 a) t2" and wi2: "window_ok0 ih2 (J2 a) (L2 a) t2"
  shows "point0_complex a rh1 ih1 rh2 ih2 t1 t2 =
     Inr (separable_sum a cmul (w_complex0 rh1 ih1 (L1 a) t1) (w_complex0 rh2 ih2 (L2 a) t2) t1 t2)"
proof -
  let ?W1 = "w_complex0 rh1 ih1 (L1 a) t1"
  let ?W2 = "w_complex0 rh2 ih2 (L2 a) t2"
  have K: "K2 a \<noteq> 0" using g by (simp add: grid_ok_def)
  have "for_loop 0 (J2 a) (outer0_complex a rh1 ih1 rh2 ih2 t1 t2 (window_start t1 (J1 a)))
          (window_start t2 (J2 a), Fin 0, Fin 0) =
        Inr (window_start t2 (J2 a) + max 0 (J2 a), separable_sum a cmul ?W1 ?W2 t1 t2)"
    unfolding separable_sum_inner
  proof (rule for_loop_accumulate)
    fix jj :: int and s :: dcomplex
    assume jj: "0 \<le> jj" "jj < J2 a"
    obtain sr si where s: "s = (sr, si)" by (cases s)
    show "outer0_complex a rh1 ih1 rh2 ih2 t1 t2 (window_start t1 (J1 a)) jj
            (window_start t2 (J2 a) + jj, s) =
       Inr (window_start t2 (J2 a) + jj + 1,
            cadd s (cmul (?W2 (window_start t2 (J2 a) + jj))
              (inner_sum a cmul ?W1 t1 (window_start t2 (J2 a) + jj))))"
      unfolding outer0_complex_def s prod.case Let_def offset_code
      by (simp add: window_ok0_at [OF wr2 jj] window_ok0_at [OF wi2 jj] mymod_eq [OF K]
            inner0_complex_loop [OF g wr1 wi1] case_prod_unfold cadd_def cmul_def w_complex0_def)
  qed
  then show ?thesis
    by (simp add: point0_complex_def window_ok0_start [OF wr1] window_ok0_start [OF wr2])
qed

section \<open>The loops over the query points\<close>

text \<open>
  The sequential loop, the loop of one worker and the merge of a fully written private
  buffer, each as a function of the per-point results.
\<close>

lemma step_seq_pt_at:
  assumes "0 \<le> mm" "mm < int (length r_fm)" "mm < int (length i_fm)"
  shows "step_seq a point mm (r_fm, i_fm) =
     bind_res (pt_at a point mm) (\<lambda>(x, y). Inr (r_fm[nat mm := x], i_fm[nat mm := y]))"
  using assms
  by (simp add: step_seq_def pt_at_def wr_def bind_res_def split: sum.splits prod.splits)

lemma step_par_pt_at:
  assumes "0 \<le> mm" "mm < int (length rp)" "mm < int (length ip)"
  shows "step_par a point mm (rp, ip) =
     bind_res (pt_at a point mm) (\<lambda>(x, y). Inr (rp[nat mm := Some x], ip[nat mm := Some y]))"
  using assms
  by (simp add: step_par_def pt_at_def wr_def bind_res_def add.commute split: sum.splits prod.splits)

lemma take_Suc_update: "n < length xs \<Longrightarrow> take (Suc n) (xs[n := x]) = take n xs @ [x]"
  by (simp add: take_Suc_conv_app_nth)

lemma seq_loop_map_res:
  assumes "0 \<le> lo" "lo \<le> m" "int (length r_fm) = m" "int (length i_fm) = m"
  shows "for_loop lo m (step_seq a point) (r_fm, i_fm) =
     bind_res (map_res (pt_at a point) [lo..m - 1])
       (\<lambda>vs. Inr (take (nat lo) r_fm @ map fst vs, take (nat lo) i_fm @ map snd vs))"
  using assms
proof (induction "nat (m - lo)" arbitrary: lo r_fm i_fm)
  case 0
  then have "lo = m" by simp
  then show ?case using 0 by (simp add: for_loop.simps [of m])
next
  case (Suc n)
  then have lt: "lo < m" by linarith
  have n: "n = nat (m - (lo + 1))" using Suc.hyps(2) by linarith
  have u: "[lo..m - 1] = lo # [lo + 1..m - 1]" using lt by (simp add: upto_rec1)
  have st: "step_seq a point lo (r_fm, i_fm) =
     bind_res (pt_at a point lo) (\<lambda>(x, y). Inr (r_fm[nat lo := x], i_fm[nat lo := y]))"
    using Suc.prems lt by (intro step_seq_pt_at) simp_all
  show ?case
  proof (cases "pt_at a point lo")
    case (Inl e)
    then show ?thesis using lt by (subst for_loop.simps) (simp add: st u)
  next
    case (Inr v)
    obtain x y where v: "v = (x, y)" by (cases v)
    have ih: "for_loop (lo + 1) m (step_seq a point) (r_fm[nat lo := x], i_fm[nat lo := y]) =
       bind_res (map_res (pt_at a point) [lo + 1..m - 1])
         (\<lambda>vs. Inr (take (nat (lo + 1)) (r_fm[nat lo := x]) @ map fst vs,
                     take (nat (lo + 1)) (i_fm[nat lo := y]) @ map snd vs))"
      using Suc.prems lt by (intro Suc.hyps(1) [OF n]) simp_all
    have tk: "take (nat (lo + 1)) (r_fm[nat lo := x]) = take (nat lo) r_fm @ [x]"
             "take (nat (lo + 1)) (i_fm[nat lo := y]) = take (nat lo) i_fm @ [y]"
      using Suc.prems lt by (simp_all add: nat_add_distrib take_Suc_update)
    show ?thesis
      using lt
      by (subst for_loop.simps)
         (simp add: st u Inr v ih tk bind_res_def split: sum.splits)
  qed
qed

lemma par_loop_map_res:
  assumes "0 \<le> lo" "lo \<le> m" "int (length rp) = m" "int (length ip) = m"
  shows "iter (step_par a point) [lo..m - 1] (rp, ip) =
     bind_res (map_res (pt_at a point) [lo..m - 1])
       (\<lambda>vs. Inr (take (nat lo) rp @ map (\<lambda>v. Some (fst v)) vs,
                   take (nat lo) ip @ map (\<lambda>v. Some (snd v)) vs))"
  using assms
proof (induction "nat (m - lo)" arbitrary: lo rp ip)
  case 0
  then have "lo = m" by simp
  then show ?case using 0 by simp
next
  case (Suc n)
  then have lt: "lo < m" by linarith
  have n: "n = nat (m - (lo + 1))" using Suc.hyps(2) by linarith
  have u: "[lo..m - 1] = lo # [lo + 1..m - 1]" using lt by (simp add: upto_rec1)
  have st: "step_par a point lo (rp, ip) =
     bind_res (pt_at a point lo) (\<lambda>(x, y). Inr (rp[nat lo := Some x], ip[nat lo := Some y]))"
    using Suc.prems lt by (intro step_par_pt_at) simp_all
  show ?case
  proof (cases "pt_at a point lo")
    case (Inl e)
    then show ?thesis by (simp add: st u)
  next
    case (Inr v)
    obtain x y where v: "v = (x, y)" by (cases v)
    have ih: "iter (step_par a point) [lo + 1..m - 1] (rp[nat lo := Some x], ip[nat lo := Some y]) =
       bind_res (map_res (pt_at a point) [lo + 1..m - 1])
         (\<lambda>vs. Inr (take (nat (lo + 1)) (rp[nat lo := Some x]) @ map (\<lambda>v. Some (fst v)) vs,
                     take (nat (lo + 1)) (ip[nat lo := Some y]) @ map (\<lambda>v. Some (snd v)) vs))"
      using Suc.prems lt by (intro Suc.hyps(1) [OF n]) simp_all
    have tk: "take (nat (lo + 1)) (rp[nat lo := Some x]) = take (nat lo) rp @ [Some x]"
             "take (nat (lo + 1)) (ip[nat lo := Some y]) = take (nat lo) ip @ [Some y]"
      using Suc.prems lt by (simp_all add: nat_add_distrib take_Suc_update)
    show ?thesis
      by (simp add: st u Inr v ih tk bind_res_def split: sum.splits)
  qed
qed

lemma merge_step_add:
  assumes "0 \<le> mm" "mm < int (length r)" "mm < int (length i)"
    "mm < int (length xs)" "mm < int (length ys)"
  shows "merge_step (map Some xs, map Some ys) mm (r, i) =
     Inr (r[nat mm := fadd (r ! nat mm) (xs ! nat mm)], i[nat mm := fadd (i ! nat mm) (ys ! nat mm)])"
  using assms by (simp add: merge_step_def rd_cell_def rd_def wr_def)

lemma merge_loop_add:
  assumes "0 \<le> lo" "lo \<le> m" "int (length r) = m" "int (length i) = m"
    "int (length xs) = m" "int (length ys) = m"
  shows "for_loop lo m (merge_step (map Some xs, map Some ys)) (r, i) =
     Inr (take (nat lo) r @ map2 fadd (drop (nat lo) r) (drop (nat lo) xs),
          take (nat lo) i @ map2 fadd (drop (nat lo) i) (drop (nat lo) ys))"
  using assms
proof (induction "nat (m - lo)" arbitrary: lo r i)
  case 0
  then have "lo = m" by simp
  then show ?case using 0 by (simp add: for_loop.simps [of m])
next
  case (Suc n)
  then have lt: "lo < m" by linarith
  have n: "n = nat (m - (lo + 1))" using Suc.hyps(2) by linarith
  let ?r = "r[nat lo := fadd (r ! nat lo) (xs ! nat lo)]"
  let ?i = "i[nat lo := fadd (i ! nat lo) (ys ! nat lo)]"
  have st: "merge_step (map Some xs, map Some ys) lo (r, i) = Inr (?r, ?i)"
    using Suc.prems lt by (intro merge_step_add) simp_all
  have ih: "for_loop (lo + 1) m (merge_step (map Some xs, map Some ys)) (?r, ?i) =
     Inr (take (nat (lo + 1)) ?r @ map2 fadd (drop (nat (lo + 1)) ?r) (drop (nat (lo + 1)) xs),
          take (nat (lo + 1)) ?i @ map2 fadd (drop (nat (lo + 1)) ?i) (drop (nat (lo + 1)) ys))"
    using Suc.prems lt by (intro Suc.hyps(1) [OF n]) simp_all
  have l: "nat lo < length r" "nat lo < length i" "nat lo < length xs" "nat lo < length ys"
    using Suc.prems lt by simp_all
  have s: "nat (lo + 1) = Suc (nat lo)" using Suc.prems by simp
  have dr: "drop (nat lo) r = r ! nat lo # drop (Suc (nat lo)) r"
           "drop (nat lo) i = i ! nat lo # drop (Suc (nat lo)) i"
           "drop (nat lo) xs = xs ! nat lo # drop (Suc (nat lo)) xs"
           "drop (nat lo) ys = ys ! nat lo # drop (Suc (nat lo)) ys"
    using l by (simp_all add: Cons_nth_drop_Suc)
  show ?case
    using lt l
    by (subst for_loop.simps) (simp add: st ih s dr take_Suc_update)
qed

section \<open>Output slots\<close>

lemma map_res_all: "(\<And>x. x \<in> set xs \<Longrightarrow> f x = Inr (g x)) \<Longrightarrow> map_res f xs = Inr (map g xs)"
  by (induction xs) simp_all

lemma pt_at_in:
  assumes "0 \<le> mm" "mm < M a" "int (length (p_tm a)) = 2 * M a"
  shows "pt_at a point mm = point (t1_of a mm) (t2_of a mm)"
  using assms by (simp add: pt_at_def rd_def t1_of_def t2_of_def)

lemma seq_loop_values:
  assumes b: "buffers_ok a out"
    and p: "\<And>mm. 0 \<le> mm \<Longrightarrow> mm < M a \<Longrightarrow> point (t1_of a mm) (t2_of a mm) = Inr (V mm)"
  shows "for_loop 0 (M a) (step_seq a point) out =
     Inr (map (\<lambda>mm. fst (V mm)) [0..M a - 1], map (\<lambda>mm. snd (V mm)) [0..M a - 1])"
proof -
  obtain r i where out: "out = (r, i)" by (cases out)
  have m: "map_res (pt_at a point) [0..M a - 1] = Inr (map V [0..M a - 1])"
  proof (rule map_res_all)
    fix x assume "x \<in> set [0..M a - 1]"
    then have "0 \<le> x" "x < M a" by simp_all
    then show "pt_at a point x = Inr (V x)"
      using b p by (simp add: pt_at_in buffers_ok_def)
  qed
  have "for_loop 0 (M a) (step_seq a point) (r, i) =
     bind_res (map_res (pt_at a point) [0..M a - 1])
       (\<lambda>vs. Inr (take (nat 0) r @ map fst vs, take (nat 0) i @ map snd vs))"
    using b by (intro seq_loop_map_res) (simp_all add: buffers_ok_def out)
  then show ?thesis by (simp add: m out comp_def)
qed

lemma iter_step_par_values:
  assumes p: "\<And>mm. mm \<in> set ms \<Longrightarrow> pt_at a point mm = Inr (V mm)"
    and r: "\<And>mm. mm \<in> set ms \<Longrightarrow> 0 \<le> mm \<and> mm < int (length rp) \<and> mm < int (length ip)"
  shows "iter (step_par a point) ms (rp, ip) =
     Inr (fold (\<lambda>mm b. b[nat mm := Some (fst (V mm))]) ms rp,
          fold (\<lambda>mm b. b[nat mm := Some (snd (V mm))]) ms ip)"
  using assms
proof (induction ms arbitrary: rp ip)
  case Nil
  then show ?case by simp
next
  case (Cons x xs)
  have x: "0 \<le> x" "x < int (length rp)" "x < int (length ip)" using Cons.prems(2) [of x] by simp_all
  have st: "step_par a point x (rp, ip) =
      Inr (rp[nat x := Some (fst (V x))], ip[nat x := Some (snd (V x))])"
    using x Cons.prems(1) [of x] by (simp add: step_par_pt_at case_prod_unfold)
  have "iter (step_par a point) xs (rp[nat x := Some (fst (V x))], ip[nat x := Some (snd (V x))]) =
     Inr (fold (\<lambda>mm b. b[nat mm := Some (fst (V mm))]) xs (rp[nat x := Some (fst (V x))]),
          fold (\<lambda>mm b. b[nat mm := Some (snd (V mm))]) xs (ip[nat x := Some (snd (V x))]))"
    using Cons.prems by (intro Cons.IH) simp_all
  then show ?case by (simp add: st)
qed

lemma length_fold_update [simp]:
  "length (fold (\<lambda>mm b. b[nat mm := f mm]) ms b) = length b"
  by (induction ms arbitrary: b) simp_all

lemma fold_update_other:
  "m \<notin> set ms \<Longrightarrow> 0 \<le> m \<Longrightarrow> (\<And>x. x \<in> set ms \<Longrightarrow> 0 \<le> x) \<Longrightarrow>
   fold (\<lambda>mm b. b[nat mm := f mm]) ms b ! nat m = b ! nat m"
  by (induction ms arbitrary: b) (auto simp: nat_eq_iff)

lemma fold_update_mem:
  assumes "m \<in> set ms" "\<And>x. x \<in> set ms \<Longrightarrow> 0 \<le> x \<and> x < int (length b)"
  shows "fold (\<lambda>mm b. b[nat mm := f mm]) ms b ! nat m = f m"
  using assms
proof (induction ms arbitrary: b)
  case Nil
  then show ?case by simp
next
  case (Cons x xs)
  show ?case
  proof (cases "m \<in> set xs")
    case True
    then show ?thesis using Cons.prems by (simp add: Cons.IH)
  next
    case False
    then have mx: "m = x" using Cons.prems(1) by simp
    have "fold (\<lambda>mm b. b[nat mm := f mm]) xs (b[nat x := f x]) ! nat m = (b[nat x := f x]) ! nat m"
      using False Cons.prems(2) by (intro fold_update_other) (auto simp: mx)
    moreover have "nat x < length b" using Cons.prems(2) [of x] by (simp add: nat_less_iff)
    ultimately show ?thesis by (simp add: mx)
  qed
qed

section \<open>The evaluators as a whole\<close>

lemma map_res_length: "map_res f xs = Inr ys \<Longrightarrow> length ys = length xs"
  by (induction xs arbitrary: ys) (auto split: sum.splits)

lemma map_res_mem: "map_res f xs = Inr ys \<Longrightarrow> y \<in> set ys \<Longrightarrow> \<exists>x\<in>set xs. f x = Inr y"
  by (induction xs arbitrary: ys) (auto split: sum.splits)

lemma map2_fadd_zero:
  "length xs = n \<Longrightarrow> (\<And>x. x \<in> set xs \<Longrightarrow> is_double x) \<Longrightarrow>
   map2 fadd (replicate n (Fin 0)) xs = xs"
  by (induction xs arbitrary: n) (auto simp: fadd_zero_left)

lemma merge_zero:
  assumes "0 \<le> M a" "int (length xs) = M a" "int (length ys) = M a"
    and "\<And>x. x \<in> set xs \<Longrightarrow> is_double x" "\<And>y. y \<in> set ys \<Longrightarrow> is_double y"
  shows "merge a (map Some xs, map Some ys)
           (replicate (nat (M a)) (Fin 0), replicate (nat (M a)) (Fin 0)) = Inr (xs, ys)"
proof -
  have "for_loop 0 (M a) (merge_step (map Some xs, map Some ys))
          (replicate (nat (M a)) (Fin 0), replicate (nat (M a)) (Fin 0)) =
     Inr (take (nat 0) (replicate (nat (M a)) (Fin 0)) @
            map2 fadd (drop (nat 0) (replicate (nat (M a)) (Fin 0))) (drop (nat 0) xs),
          take (nat 0) (replicate (nat (M a)) (Fin 0)) @
            map2 fadd (drop (nat 0) (replicate (nat (M a)) (Fin 0))) (drop (nat 0) ys))"
    using assms(1-3) by (intro merge_loop_add) simp_all
  moreover have "length xs = nat (M a)" "length ys = nat (M a)" using assms by linarith+
  ultimately show ?thesis using assms(4,5) by (simp add: merge_def map2_fadd_zero)
qed

lemma memset0_all:
  "0 \<le> n \<Longrightarrow> int (length xs) = n \<Longrightarrow> memset0 xs n = Inr (replicate (nat n) (Fin 0))"
  by (simp add: memset0_def)

lemma for_loop_inv:
  assumes "P s" and "\<And>jj s s'. P s \<Longrightarrow> body jj s = Inr s' \<Longrightarrow> P s'"
    and "for_loop lo n body s = Inr s'"
  shows "P s'"
  using assms(1,3)
proof (induction "nat (n - lo)" arbitrary: lo s)
  case 0
  then have "\<not> lo < n" by simp
  then show ?case using 0 by (simp add: for_loop.simps [of lo])
next
  case (Suc m)
  then have lt: "lo < n" by linarith
  have m: "m = nat (n - (lo + 1))" using Suc.hyps(2) by linarith
  obtain s1 where b: "body lo s = Inr s1" and r: "for_loop (lo + 1) n body s1 = Inr s'"
    using Suc.prems(2) lt by (subst (asm) for_loop.simps) (auto split: sum.splits)
  have "P s1" using Suc.prems(1) b by (rule assms(2))
  then show ?case using r by (rule Suc.hyps(1) [OF m])
qed

lemma outer0_complex_doubles:
  "outer0_complex a rh1 ih1 rh2 ih2 t1 t2 koff1 jj st = Inr st' \<Longrightarrow> doubles st'"
  by (auto simp: outer0_complex_def bind_res_def Let_def doubles_def is_double_fadd
        split: sum.splits prod.splits)

lemma point0_complex_doubles:
  assumes "point0_complex a rh1 ih1 rh2 ih2 t1 t2 = Inr v"
  shows "is_double (fst v) \<and> is_double (snd v)"
proof -
  obtain koff1 k2 st where
    l: "for_loop 0 (J2 a) (outer0_complex a rh1 ih1 rh2 ih2 t1 t2 koff1) (k2, Fin 0, Fin 0) = Inr st"
    and v: "v = snd st"
    using assms
    by (auto simp: point0_complex_def bind_res_def split: sum.splits prod.splits)
  have "doubles st"
  proof (rule for_loop_inv [OF _ _ l])
    show "doubles (k2, Fin 0, Fin 0)" by (simp add: doubles_def)
  next
    fix jj s s'
    assume "outer0_complex a rh1 ih1 rh2 ih2 t1 t2 koff1 jj s = Inr s'"
    then show "doubles s'" by (rule outer0_complex_doubles)
  qed
  then show ?thesis by (simp add: doubles_def v)
qed

lemma pt_at_doubles:
  assumes "pt_at a (point0_complex b rh1 ih1 rh2 ih2) mm = Inr v"
  shows "is_double (fst v) \<and> is_double (snd v)"
proof -
  obtain t1 t2 where "point0_complex b rh1 ih1 rh2 ih2 t1 t2 = Inr v"
    using assms by (auto simp: pt_at_def bind_res_def split: sum.splits)
  then show ?thesis by (rule point0_complex_doubles)
qed

lemma complex_single_map_res:
  assumes "0 \<le> M a" "int (length r) = M a" "int (length i) = M a"
  shows "interp2_table0_complex_per (single_worker (M a)) a (r, i) =
     bind_res (map_res (pt_at a (point0_complex a
          (centred (r_h1 a) (J1 a) (L1 a)) (centred (i_h1 a) (J1 a) (L1 a))
          (centred (r_h2 a) (J2 a) (L2 a)) (centred (i_h2 a) (J2 a) (L2 a)))) [0..M a - 1])
       (\<lambda>vs. Inr (map fst vs, map snd vs))"
proof -
  let ?point = "point0_complex a
          (centred (r_h1 a) (J1 a) (L1 a)) (centred (i_h1 a) (J1 a) (L1 a))
          (centred (r_h2 a) (J2 a) (L2 a)) (centred (i_h2 a) (J2 a) (L2 a))"
  have w: "worker a ?point [0..M a - 1] =
     bind_res (map_res (pt_at a ?point) [0..M a - 1])
       (\<lambda>vs. Inr (take (nat 0) (malloc (M a)) @ map (\<lambda>v. Some (fst v)) vs,
                   take (nat 0) (malloc (M a)) @ map (\<lambda>v. Some (snd v)) vs))"
    unfolding worker_def using assms by (intro par_loop_map_res) (simp_all add: malloc_def)
  show ?thesis
  proof (cases "map_res (pt_at a ?point) [0..M a - 1]")
    case (Inl e)
    then show ?thesis
      unfolding interp2_table0_complex_per_def single_worker_def Let_def centred_def [symmetric]
      using assms by (simp add: memset0_all w)
  next
    case (Inr vs)
    have "length vs = length [0..M a - 1]" using Inr by (rule map_res_length)
    then have l: "int (length (map fst vs)) = M a" "int (length (map snd vs)) = M a"
      using assms by simp_all
    have d: "is_double (fst v) \<and> is_double (snd v)" if vin: "v \<in> set vs" for v
    proof -
      obtain x where "pt_at a ?point x = Inr v" using map_res_mem [OF Inr vin] by blast
      then show ?thesis by (rule pt_at_doubles)
    qed
    have m: "merge a (map Some (map fst vs), map Some (map snd vs))
               (replicate (nat (M a)) (Fin 0), replicate (nat (M a)) (Fin 0)) =
             Inr (map fst vs, map snd vs)"
      using assms(1) l by (rule merge_zero) (use d in auto)
    show ?thesis
      unfolding interp2_table0_complex_per_def single_worker_def Let_def centred_def [symmetric]
      using assms m by (simp add: memset0_all w Inr comp_def)
  qed
qed

lemma real0_values:
  assumes "grid_ok a" "buffers_ok a out" "tables_ok0 a"
  shows "interp2_table0_real_per pf a out =
     Inr (map (\<lambda>mm. fst (value_real0 pf a mm)) [0..M a - 1],
          map (\<lambda>mm. snd (value_real0 pf a mm)) [0..M a - 1])"
  unfolding interp2_table0_real_per_def Let_def centred_def [symmetric]
proof (rule seq_loop_values [OF assms(2)])
  fix mm assume "0 \<le> mm" "mm < M a"
  then have "window_ok0 (centred (r_h1 a) (J1 a) (L1 a)) (J1 a) (L1 a) (t1_of a mm)"
            "window_ok0 (centred (r_h2 a) (J2 a) (L2 a)) (J2 a) (L2 a) (t2_of a mm)"
    using assms(3) by (simp_all add: tables_ok0_def)
  then show "point0_real pf a (centred (r_h1 a) (J1 a) (L1 a)) (centred (r_h2 a) (J2 a) (L2 a))
       (t1_of a mm) (t2_of a mm) = Inr (value_real0 pf a mm)"
    unfolding value_real0_def by (rule point0_real_sum [OF assms(1)])
qed

lemma real1_values:
  assumes "grid_ok a" "buffers_ok a out" "tables_ok1 a"
  shows "interp2_table1_real_per pf a out =
     Inr (map (\<lambda>mm. fst (value_real1 pf a mm)) [0..M a - 1],
          map (\<lambda>mm. snd (value_real1 pf a mm)) [0..M a - 1])"
  unfolding interp2_table1_real_per_def Let_def centred_def [symmetric]
proof (rule seq_loop_values [OF assms(2)])
  fix mm assume "0 \<le> mm" "mm < M a"
  then have "window_ok1 (centred (r_h1 a) (J1 a) (L1 a)) (J1 a) (L1 a) (t1_of a mm)"
            "window_ok1 (centred (r_h2 a) (J2 a) (L2 a)) (J2 a) (L2 a) (t2_of a mm)"
    using assms(3) by (simp_all add: tables_ok1_def)
  then show "point1_real pf a (centred (r_h1 a) (J1 a) (L1 a)) (centred (r_h2 a) (J2 a) (L2 a))
       (t1_of a mm) (t2_of a mm) = Inr (value_real1 pf a mm)"
    unfolding value_real1_def by (rule point1_real_sum [OF assms(1)])
qed

lemma complex0_point_value:
  assumes "grid_ok a" "tables_ok0 a" "tables_ok0_imag a" "0 \<le> mm" "mm < M a"
  shows "point0_complex a
          (centred (r_h1 a) (J1 a) (L1 a)) (centred (i_h1 a) (J1 a) (L1 a))
          (centred (r_h2 a) (J2 a) (L2 a)) (centred (i_h2 a) (J2 a) (L2 a))
          (t1_of a mm) (t2_of a mm) = Inr (value_complex0 a mm)"
proof -
  have "window_ok0 (centred (r_h1 a) (J1 a) (L1 a)) (J1 a) (L1 a) (t1_of a mm)"
       "window_ok0 (centred (i_h1 a) (J1 a) (L1 a)) (J1 a) (L1 a) (t1_of a mm)"
       "window_ok0 (centred (r_h2 a) (J2 a) (L2 a)) (J2 a) (L2 a) (t2_of a mm)"
       "window_ok0 (centred (i_h2 a) (J2 a) (L2 a)) (J2 a) (L2 a) (t2_of a mm)"
    using assms by (simp_all add: tables_ok0_def tables_ok0_imag_def)
  then show ?thesis
    unfolding value_complex0_def by (rule point0_complex_sum [OF assms(1)])
qed

lemma complex0_single_values:
  assumes "grid_ok a" "buffers_ok a out" "tables_ok0 a" "tables_ok0_imag a"
  shows "interp2_table0_complex_per (single_worker (M a)) a out =
     Inr (map (\<lambda>mm. fst (value_complex0 a mm)) [0..M a - 1],
          map (\<lambda>mm. snd (value_complex0 a mm)) [0..M a - 1])"
proof -
  let ?point = "point0_complex a
          (centred (r_h1 a) (J1 a) (L1 a)) (centred (i_h1 a) (J1 a) (L1 a))
          (centred (r_h2 a) (J2 a) (L2 a)) (centred (i_h2 a) (J2 a) (L2 a))"
  obtain r i where out: "out = (r, i)" by (cases out)
  have m: "map_res (pt_at a ?point) [0..M a - 1] = Inr (map (value_complex0 a) [0..M a - 1])"
  proof (rule map_res_all)
    fix x assume "x \<in> set [0..M a - 1]"
    then have x: "0 \<le> x" "x < M a" by simp_all
    then have "pt_at a ?point x = ?point (t1_of a x) (t2_of a x)"
      using assms(2) by (simp add: pt_at_in buffers_ok_def)
    then show "pt_at a ?point x = Inr (value_complex0 a x)"
      using complex0_point_value [OF assms(1,3,4) x] by simp
  qed
  have "interp2_table0_complex_per (single_worker (M a)) a (r, i) =
     bind_res (map_res (pt_at a ?point) [0..M a - 1]) (\<lambda>vs. Inr (map fst vs, map snd vs))"
    using assms(2) by (intro complex_single_map_res) (simp_all add: buffers_ok_def out)
  then show ?thesis by (simp add: m out comp_def)
qed

lemma complex0_worker_values:
  assumes "grid_ok a" "buffers_ok a out" "tables_ok0 a" "tables_ok0_imag a"
    and ms: "\<And>mm. mm \<in> set ms \<Longrightarrow> 0 \<le> mm \<and> mm < M a"
  shows "worker a (point0_complex a
          (centred (r_h1 a) (J1 a) (L1 a)) (centred (i_h1 a) (J1 a) (L1 a))
          (centred (r_h2 a) (J2 a) (L2 a)) (centred (i_h2 a) (J2 a) (L2 a))) ms =
     Inr (fold (\<lambda>mm b. b[nat mm := Some (fst (value_complex0 a mm))]) ms (malloc (M a)),
          fold (\<lambda>mm b. b[nat mm := Some (snd (value_complex0 a mm))]) ms (malloc (M a)))"
  unfolding worker_def
proof (rule iter_step_par_values)
  fix mm assume mm: "mm \<in> set ms"
  then have x: "0 \<le> mm" "mm < M a" using ms by simp_all
  let ?point = "point0_complex a
          (centred (r_h1 a) (J1 a) (L1 a)) (centred (i_h1 a) (J1 a) (L1 a))
          (centred (r_h2 a) (J2 a) (L2 a)) (centred (i_h2 a) (J2 a) (L2 a))"
  have "pt_at a ?point mm = ?point (t1_of a mm) (t2_of a mm)"
    using assms(2) x by (simp add: pt_at_in buffers_ok_def)
  then show "pt_at a ?point mm = Inr (value_complex0 a mm)"
    using complex0_point_value [OF assms(1,3,4) x] by simp
  show "0 \<le> mm \<and> mm < int (length (malloc (M a))) \<and> mm < int (length (malloc (M a)))"
    using x by (simp add: malloc_def)
qed

section \<open>Moving a query point by one period\<close>

text \<open>
  When the window start moves by exactly one period and every window index stays an
  \<^verbatim>\<open>int\<close>, the loops over the moved window compute what the loops over the original
  window compute: the offsets are the same doubles and the wrapped indices are the same.
\<close>

lemma for_loop_shift:
  assumes b: "\<And>jj sr si. lo \<le> jj \<Longrightarrow> jj < n \<Longrightarrow>
      body' jj (k0 + (jj - lo) + K, sr, si) =
      map_sum id (\<lambda>(k, sr, si). (k + K, sr, si)) (body jj (k0 + (jj - lo), sr, si))"
    and st: "\<And>jj k sr si k' sr' si'. body jj (k, sr, si) = Inr (k', sr', si') \<Longrightarrow> k' = k + 1"
  shows "for_loop lo n body' (k0 + K, sr, si) =
      map_sum id (\<lambda>(k, sr, si). (k + K, sr, si)) (for_loop lo n body (k0, sr, si))"
  using b
proof (induction "nat (n - lo)" arbitrary: lo k0 sr si)
  case 0
  then have "\<not> lo < n" by simp
  then show ?case by (simp add: for_loop.simps [of lo])
next
  case (Suc m)
  then have lt: "lo < n" by linarith
  have m: "m = nat (n - (lo + 1))" using Suc.hyps(2) by linarith
  have b0: "body' lo (k0 + K, sr, si) =
      map_sum id (\<lambda>(k, sr, si). (k + K, sr, si)) (body lo (k0, sr, si))"
    using Suc.prems [of lo sr si] lt by simp
  show ?case
  proof (cases "body lo (k0, sr, si)")
    case (Inl e)
    then show ?thesis
      using lt by (simp add: for_loop.simps [of lo] b0)
  next
    case (Inr st1)
    obtain k' sr' si' where st1: "st1 = (k', sr', si')" by (cases st1)
    have k': "k' = k0 + 1" using Inr st [of lo k0 sr si k' sr' si'] by (simp add: st1)
    have ih: "for_loop (lo + 1) n body' (k0 + 1 + K, sr', si') =
        map_sum id (\<lambda>(k, sr, si). (k + K, sr, si)) (for_loop (lo + 1) n body (k0 + 1, sr', si'))"
    proof (rule Suc.hyps(1) [OF m])
      fix jj sr si
      assume "lo + 1 \<le> jj" "jj < n"
      then show "body' jj (k0 + 1 + (jj - (lo + 1)) + K, sr, si) =
          map_sum id (\<lambda>(k, sr, si). (k + K, sr, si)) (body jj (k0 + 1 + (jj - (lo + 1)), sr, si))"
        using Suc.prems [of jj sr si] by (simp add: algebra_simps)
    qed
    show ?thesis
      using lt ih
      by (simp add: for_loop.simps [of lo] b0 Inr st1 k')
  qed
qed

lemma fsub_shift:
  "fsub (Fin (x + real_of_int K)) (double_of_int (k + K)) = fsub (Fin x) (double_of_int k)"
  by (simp add: fsub_def fadd_def fneg_def double_of_int_def)

lemma periodic_index_shift:
  "periodic_index (k + K) K =
     map_sum id (\<lambda>(kmod, wrap). (kmod, wrap + 1)) (periodic_index k K)"
proof (cases "K = 0")
  case True
  then show ?thesis by (simp add: periodic_index_def)
next
  case False
  then show ?thesis by (simp add: periodic_index_eq)
qed

lemma mymod_shift: "mymod (k + K) K = mymod k K"
  by (cases "periodic_index k K") (auto simp: mymod_def periodic_index_shift)

lemma bind_map_sum: "bind_res (map_sum id g r) f = bind_res r (\<lambda>x. f (g x))"
  by (cases r) simp_all

lemma chk_shift:
  "int_ok (k + 1) \<Longrightarrow> int_ok (k + K + 1) \<Longrightarrow>
   bind_res (chk (k + K + 1)) (\<lambda>k'. Inr (k', v)) =
   map_sum id (\<lambda>(k, sr, si). (k + K, sr, si)) (bind_res (chk (k + 1)) (\<lambda>k'. Inr (k', v)))"
  by (cases v) (simp add: chk_ok)

lemma inner0_real_next:
  "inner0_real pf a h1 t1 k12mod jj (k, sr, si) = Inr (k', sr', si') \<Longrightarrow> k' = k + 1"
  by (auto simp: inner0_real_def bind_res_def Let_def chk_def split: sum.splits prod.splits if_splits)

lemma inner1_real_next:
  "inner1_real pf a h1 t1 k12mod jj (k, sr, si) = Inr (k', sr', si') \<Longrightarrow> k' = k + 1"
  by (auto simp: inner1_real_def bind_res_def Let_def chk_def split: sum.splits prod.splits if_splits)

lemma inner0_complex_next:
  "inner0_complex a rh1 ih1 t1 k12mod jj (k, sr, si) = Inr (k', sr', si') \<Longrightarrow> k' = k + 1"
  by (auto simp: inner0_complex_def bind_res_def Let_def chk_def
        split: sum.splits prod.splits if_splits)

lemma outer0_real_next:
  "outer0_real pf a h1 h2 t1 t2 koff1 jj (k, sr, si) = Inr (k', sr', si') \<Longrightarrow> k' = k + 1"
  by (auto simp: outer0_real_def bind_res_def Let_def chk_def split: sum.splits prod.splits if_splits)

lemma outer1_real_next:
  "outer1_real pf a h1 h2 t1 t2 koff1 jj (k, sr, si) = Inr (k', sr', si') \<Longrightarrow> k' = k + 1"
  by (auto simp: outer1_real_def bind_res_def Let_def chk_def split: sum.splits prod.splits if_splits)

lemma outer0_complex_next:
  "outer0_complex a rh1 ih1 rh2 ih2 t1 t2 koff1 jj (k, sr, si) = Inr (k', sr', si') \<Longrightarrow> k' = k + 1"
  by (auto simp: outer0_complex_def bind_res_def Let_def chk_def
        split: sum.splits prod.splits if_splits)

lemma inner0_real_shift:
  assumes "\<not> pf \<or> flip1 a = 0" "int_ok (k + 1)" "int_ok (k + K1 a + 1)"
  shows "inner0_real pf a h1 (Fin (x + real_of_int (K1 a))) k12mod jj (k + K1 a, sr, si) =
      map_sum id (\<lambda>(k, sr, si). (k + K1 a, sr, si))
        (inner0_real pf a h1 (Fin x) k12mod jj (k, sr, si))"
  unfolding inner0_real_def prod.case Let_def fsub_shift periodic_index_shift
  by (cases "lookup0 h1 (fmul (fsub (Fin x) (double_of_int k)) (double_of_int (L1 a)))";
      cases "periodic_index k (K1 a)")
     (auto simp: sign_flip_off [OF assms(1)] chk_ok [OF assms(2)] chk_ok [OF assms(3)]
        bind_res_def split: sum.splits)

lemma inner1_real_shift:
  assumes "\<not> pf \<or> flip1 a = 0" "int_ok (k + 1)" "int_ok (k + K1 a + 1)"
  shows "inner1_real pf a h1 (Fin (x + real_of_int (K1 a))) k12mod jj (k + K1 a, sr, si) =
      map_sum id (\<lambda>(k, sr, si). (k + K1 a, sr, si))
        (inner1_real pf a h1 (Fin x) k12mod jj (k, sr, si))"
  unfolding inner1_real_def prod.case Let_def fsub_shift periodic_index_shift
  by (cases "lookup1 h1 (fmul (fsub (Fin x) (double_of_int k)) (double_of_int (L1 a)))";
      cases "periodic_index k (K1 a)")
     (auto simp: sign_flip_off [OF assms(1)] chk_ok [OF assms(2)] chk_ok [OF assms(3)]
        bind_res_def split: sum.splits)

lemma inner0_complex_shift:
  assumes "int_ok (k + 1)" "int_ok (k + K1 a + 1)"
  shows "inner0_complex a rh1 ih1 (Fin (x + real_of_int (K1 a))) k12mod jj (k + K1 a, sr, si) =
      map_sum id (\<lambda>(k, sr, si). (k + K1 a, sr, si))
        (inner0_complex a rh1 ih1 (Fin x) k12mod jj (k, sr, si))"
  unfolding inner0_complex_def prod.case Let_def fsub_shift mymod_shift
  by (auto simp: chk_ok [OF assms(1)] chk_ok [OF assms(2)] bind_res_def
        split: sum.splits)

lemma window_shifts_step:
  assumes "window_shifts x K J" "0 \<le> jj" "jj < J"
  shows "int_ok (window_start (Fin x) J + jj + 1)"
    and "int_ok (window_start (Fin x) J + jj + K + 1)"
proof -
  have s: "start_ok (Fin x) J" "start_ok (Fin (x + real_of_int K)) J"
    and w: "window_start (Fin (x + real_of_int K)) J = window_start (Fin x) J + K"
    using assms(1) by (simp_all add: window_shifts_def)
  show "int_ok (window_start (Fin x) J + jj + 1)"
    using start_ok_step(2) [OF s(1) assms(2,3)] .
  show "int_ok (window_start (Fin x) J + jj + K + 1)"
    using start_ok_step(2) [OF s(2) assms(2,3)] by (simp add: w algebra_simps)
qed

lemma window_shifts_start:
  assumes "window_shifts x K J"
  shows "k_start (Fin x) J = Inr (window_start (Fin x) J)"
    and "k_start (Fin (x + real_of_int K)) J = Inr (window_start (Fin x) J + K)"
  using assms k_start_eq [of "Fin x" J] k_start_eq [of "Fin (x + real_of_int K)" J]
  by (simp_all add: window_shifts_def)

lemma point0_real_shift1:
  assumes f: "\<not> pf \<or> flip1 a = 0" and w: "window_shifts x (K1 a) (J1 a)"
  shows "point0_real pf a h1 h2 (Fin (x + real_of_int (K1 a))) t2 =
         point0_real pf a h1 h2 (Fin x) t2"
proof -
  let ?ks = "window_start (Fin x) (J1 a)"
  have in_l: "for_loop 0 (J1 a) (inner0_real pf a h1 (Fin (x + real_of_int (K1 a))) k12mod)
        (?ks + K1 a, Fin 0, Fin 0) =
      map_sum id (\<lambda>(k, sr, si). (k + K1 a, sr, si))
        (for_loop 0 (J1 a) (inner0_real pf a h1 (Fin x) k12mod) (?ks, Fin 0, Fin 0))" for k12mod
  proof (rule for_loop_shift)
    fix jj sr si
    assume jj: "0 \<le> jj" "jj < J1 a"
    show "inner0_real pf a h1 (Fin (x + real_of_int (K1 a))) k12mod jj
            (?ks + (jj - 0) + K1 a, sr, si) =
          map_sum id (\<lambda>(k, sr, si). (k + K1 a, sr, si))
            (inner0_real pf a h1 (Fin x) k12mod jj (?ks + (jj - 0), sr, si))"
      using window_shifts_step [OF w jj] by (intro inner0_real_shift [OF f]) simp_all
  qed (rule inner0_real_next)
  have "outer0_real pf a h1 h2 (Fin (x + real_of_int (K1 a))) t2 (?ks + K1 a) =
        outer0_real pf a h1 h2 (Fin x) t2 ?ks"
    by (intro ext) (simp add: outer0_real_def in_l bind_map_sum Let_def case_prod_unfold)
  then show ?thesis by (simp add: point0_real_def window_shifts_start [OF w])
qed

lemma point1_real_shift1:
  assumes f: "\<not> pf \<or> flip1 a = 0" and w: "window_shifts x (K1 a) (J1 a)"
  shows "point1_real pf a h1 h2 (Fin (x + real_of_int (K1 a))) t2 =
         point1_real pf a h1 h2 (Fin x) t2"
proof -
  let ?ks = "window_start (Fin x) (J1 a)"
  have in_l: "for_loop 0 (J1 a) (inner1_real pf a h1 (Fin (x + real_of_int (K1 a))) k12mod)
        (?ks + K1 a, Fin 0, Fin 0) =
      map_sum id (\<lambda>(k, sr, si). (k + K1 a, sr, si))
        (for_loop 0 (J1 a) (inner1_real pf a h1 (Fin x) k12mod) (?ks, Fin 0, Fin 0))" for k12mod
  proof (rule for_loop_shift)
    fix jj sr si
    assume jj: "0 \<le> jj" "jj < J1 a"
    show "inner1_real pf a h1 (Fin (x + real_of_int (K1 a))) k12mod jj
            (?ks + (jj - 0) + K1 a, sr, si) =
          map_sum id (\<lambda>(k, sr, si). (k + K1 a, sr, si))
            (inner1_real pf a h1 (Fin x) k12mod jj (?ks + (jj - 0), sr, si))"
      using window_shifts_step [OF w jj] by (intro inner1_real_shift [OF f]) simp_all
  qed (rule inner1_real_next)
  have "outer1_real pf a h1 h2 (Fin (x + real_of_int (K1 a))) t2 (?ks + K1 a) =
        outer1_real pf a h1 h2 (Fin x) t2 ?ks"
    by (intro ext) (simp add: outer1_real_def in_l bind_map_sum Let_def case_prod_unfold)
  then show ?thesis by (simp add: point1_real_def window_shifts_start [OF w])
qed

lemma point0_complex_shift1:
  assumes w: "window_shifts x (K1 a) (J1 a)"
  shows "point0_complex a rh1 ih1 rh2 ih2 (Fin (x + real_of_int (K1 a))) t2 =
         point0_complex a rh1 ih1 rh2 ih2 (Fin x) t2"
proof -
  let ?ks = "window_start (Fin x) (J1 a)"
  have in_l: "for_loop 0 (J1 a) (inner0_complex a rh1 ih1 (Fin (x + real_of_int (K1 a))) k12mod)
        (?ks + K1 a, Fin 0, Fin 0) =
      map_sum id (\<lambda>(k, sr, si). (k + K1 a, sr, si))
        (for_loop 0 (J1 a) (inner0_complex a rh1 ih1 (Fin x) k12mod) (?ks, Fin 0, Fin 0))"
    for k12mod
  proof (rule for_loop_shift)
    fix jj sr si
    assume jj: "0 \<le> jj" "jj < J1 a"
    show "inner0_complex a rh1 ih1 (Fin (x + real_of_int (K1 a))) k12mod jj
            (?ks + (jj - 0) + K1 a, sr, si) =
          map_sum id (\<lambda>(k, sr, si). (k + K1 a, sr, si))
            (inner0_complex a rh1 ih1 (Fin x) k12mod jj (?ks + (jj - 0), sr, si))"
      using window_shifts_step [OF w jj] by (intro inner0_complex_shift) simp_all
  qed (rule inner0_complex_next)
  have "outer0_complex a rh1 ih1 rh2 ih2 (Fin (x + real_of_int (K1 a))) t2 (?ks + K1 a) =
        outer0_complex a rh1 ih1 rh2 ih2 (Fin x) t2 ?ks"
    by (intro ext) (simp add: outer0_complex_def in_l bind_map_sum Let_def case_prod_unfold)
  then show ?thesis by (simp add: point0_complex_def window_shifts_start [OF w])
qed

lemma outer0_real_shift:
  assumes "\<not> pf \<or> flip2 a = 0" "int_ok (k + 1)" "int_ok (k + K2 a + 1)"
  shows "outer0_real pf a h1 h2 t1 (Fin (x + real_of_int (K2 a))) koff1 jj (k + K2 a, sr, si) =
      map_sum id (\<lambda>(k, sr, si). (k + K2 a, sr, si))
        (outer0_real pf a h1 h2 t1 (Fin x) koff1 jj (k, sr, si))"
  unfolding outer0_real_def prod.case Let_def fsub_shift periodic_index_shift
  by (cases "lookup0 h2 (fmul (fsub (Fin x) (double_of_int k)) (double_of_int (L2 a)))";
      cases "periodic_index k (K2 a)")
     (auto simp: sign_flip_off [OF assms(1)] chk_ok [OF assms(2)] chk_ok [OF assms(3)]
        bind_res_def split: sum.splits)

lemma outer1_real_shift:
  assumes "\<not> pf \<or> flip2 a = 0" "int_ok (k + 1)" "int_ok (k + K2 a + 1)"
  shows "outer1_real pf a h1 h2 t1 (Fin (x + real_of_int (K2 a))) koff1 jj (k + K2 a, sr, si) =
      map_sum id (\<lambda>(k, sr, si). (k + K2 a, sr, si))
        (outer1_real pf a h1 h2 t1 (Fin x) koff1 jj (k, sr, si))"
  unfolding outer1_real_def prod.case Let_def fsub_shift periodic_index_shift
  by (cases "lookup1 h2 (fmul (fsub (Fin x) (double_of_int k)) (double_of_int (L2 a)))";
      cases "periodic_index k (K2 a)")
     (auto simp: sign_flip_off [OF assms(1)] chk_ok [OF assms(2)] chk_ok [OF assms(3)]
        bind_res_def split: sum.splits)

lemma outer0_complex_shift:
  assumes "int_ok (k + 1)" "int_ok (k + K2 a + 1)"
  shows "outer0_complex a rh1 ih1 rh2 ih2 t1 (Fin (x + real_of_int (K2 a))) koff1 jj
           (k + K2 a, sr, si) =
      map_sum id (\<lambda>(k, sr, si). (k + K2 a, sr, si))
        (outer0_complex a rh1 ih1 rh2 ih2 t1 (Fin x) koff1 jj (k, sr, si))"
  unfolding outer0_complex_def prod.case Let_def fsub_shift mymod_shift
  by (auto simp: chk_ok [OF assms(1)] chk_ok [OF assms(2)] bind_res_def
        split: sum.splits)

lemma point0_real_shift2:
  assumes f: "\<not> pf \<or> flip2 a = 0" and w: "window_shifts x (K2 a) (J2 a)"
  shows "point0_real pf a h1 h2 t1 (Fin (x + real_of_int (K2 a))) =
         point0_real pf a h1 h2 t1 (Fin x)"
proof -
  let ?ks = "window_start (Fin x) (J2 a)"
  have "for_loop 0 (J2 a) (outer0_real pf a h1 h2 t1 (Fin (x + real_of_int (K2 a))) koff1)
        (?ks + K2 a, Fin 0, Fin 0) =
      map_sum id (\<lambda>(k, sr, si). (k + K2 a, sr, si))
        (for_loop 0 (J2 a) (outer0_real pf a h1 h2 t1 (Fin x) koff1) (?ks, Fin 0, Fin 0))"
    for koff1
  proof (rule for_loop_shift)
    fix jj sr si
    assume jj: "0 \<le> jj" "jj < J2 a"
    show "outer0_real pf a h1 h2 t1 (Fin (x + real_of_int (K2 a))) koff1 jj
            (?ks + (jj - 0) + K2 a, sr, si) =
          map_sum id (\<lambda>(k, sr, si). (k + K2 a, sr, si))
            (outer0_real pf a h1 h2 t1 (Fin x) koff1 jj (?ks + (jj - 0), sr, si))"
      using window_shifts_step [OF w jj] by (intro outer0_real_shift [OF f]) simp_all
  qed (rule outer0_real_next)
  then show ?thesis
    by (simp add: point0_real_def window_shifts_start [OF w] bind_map_sum case_prod_unfold
          split: sum.splits)
qed

lemma point1_real_shift2:
  assumes f: "\<not> pf \<or> flip2 a = 0" and w: "window_shifts x (K2 a) (J2 a)"
  shows "point1_real pf a h1 h2 t1 (Fin (x + real_of_int (K2 a))) =
         point1_real pf a h1 h2 t1 (Fin x)"
proof -
  let ?ks = "window_start (Fin x) (J2 a)"
  have "for_loop 0 (J2 a) (outer1_real pf a h1 h2 t1 (Fin (x + real_of_int (K2 a))) koff1)
        (?ks + K2 a, Fin 0, Fin 0) =
      map_sum id (\<lambda>(k, sr, si). (k + K2 a, sr, si))
        (for_loop 0 (J2 a) (outer1_real pf a h1 h2 t1 (Fin x) koff1) (?ks, Fin 0, Fin 0))"
    for koff1
  proof (rule for_loop_shift)
    fix jj sr si
    assume jj: "0 \<le> jj" "jj < J2 a"
    show "outer1_real pf a h1 h2 t1 (Fin (x + real_of_int (K2 a))) koff1 jj
            (?ks + (jj - 0) + K2 a, sr, si) =
          map_sum id (\<lambda>(k, sr, si). (k + K2 a, sr, si))
            (outer1_real pf a h1 h2 t1 (Fin x) koff1 jj (?ks + (jj - 0), sr, si))"
      using window_shifts_step [OF w jj] by (intro outer1_real_shift [OF f]) simp_all
  qed (rule outer1_real_next)
  then show ?thesis
    by (simp add: point1_real_def window_shifts_start [OF w] bind_map_sum case_prod_unfold
          split: sum.splits)
qed

lemma point0_complex_shift2:
  assumes w: "window_shifts x (K2 a) (J2 a)"
  shows "point0_complex a rh1 ih1 rh2 ih2 t1 (Fin (x + real_of_int (K2 a))) =
         point0_complex a rh1 ih1 rh2 ih2 t1 (Fin x)"
proof -
  let ?ks = "window_start (Fin x) (J2 a)"
  have "for_loop 0 (J2 a)
          (outer0_complex a rh1 ih1 rh2 ih2 t1 (Fin (x + real_of_int (K2 a))) koff1)
        (?ks + K2 a, Fin 0, Fin 0) =
      map_sum id (\<lambda>(k, sr, si). (k + K2 a, sr, si))
        (for_loop 0 (J2 a) (outer0_complex a rh1 ih1 rh2 ih2 t1 (Fin x) koff1)
           (?ks, Fin 0, Fin 0))"
    for koff1
  proof (rule for_loop_shift)
    fix jj sr si
    assume jj: "0 \<le> jj" "jj < J2 a"
    show "outer0_complex a rh1 ih1 rh2 ih2 t1 (Fin (x + real_of_int (K2 a))) koff1 jj
            (?ks + (jj - 0) + K2 a, sr, si) =
          map_sum id (\<lambda>(k, sr, si). (k + K2 a, sr, si))
            (outer0_complex a rh1 ih1 rh2 ih2 t1 (Fin x) koff1 jj (?ks + (jj - 0), sr, si))"
      using window_shifts_step [OF w jj] by (intro outer0_complex_shift) simp_all
  qed (rule outer0_complex_next)
  then show ?thesis
    by (simp add: point0_complex_def window_shifts_start [OF w] bind_map_sum case_prod_unfold
          split: sum.splits)
qed

text \<open>
  When the difference \<open>t - J / 2\<close> is computed exactly at both coordinates, the window
  start moves by exactly one period.
\<close>

lemma exact_start_window:
  "exact_start x J \<Longrightarrow> window_start (Fin x) J = 1 + \<lfloor>x - real_of_int J / 2\<rfloor>"
  by (simp add: exact_start_def window_start_def fsub_def fadd_def fneg_def)

lemma exact_start_shift:
  assumes "exact_start x J" "exact_start (x + real_of_int K) J"
  shows "window_start (Fin (x + real_of_int K)) J = window_start (Fin x) J + K"
proof -
  have "x + real_of_int K - real_of_int J / 2 = (x - real_of_int J / 2) + real_of_int K" by simp
  then have "\<lfloor>x + real_of_int K - real_of_int J / 2\<rfloor> = \<lfloor>x - real_of_int J / 2\<rfloor> + K"
    by (simp only: floor_add_int)
  then show ?thesis by (simp add: exact_start_window [OF assms(1)] exact_start_window [OF assms(2)])
qed

section \<open>Replicated grids\<close>

lemma periodic_ext_replicates: "0 < K1 a \<Longrightarrow> 0 < K2 a \<Longrightarrow> replicates a (periodic_ext a)"
  by (simp add: replicates_def periodic_ext_def)

lemma replicates_wrap:
  assumes "grid_ok a" "replicates a cext"
  shows "cext k1 k2 = ck a ((k2 mod K2 a) * K1 a + k1 mod K1 a)"
proof -
  have p: "0 < K1 a" "0 < K2 a" using assms(1) by (simp_all add: grid_ok_def)
  have r: "cext (j1 + n1 * K1 a) (j2 + n2 * K2 a) = ck a (j2 * K1 a + j1)"
    if "0 \<le> j1" "j1 < K1 a" "0 \<le> j2" "j2 < K2 a" for j1 j2 n1 n2
    using assms(2) that unfolding replicates_def by blast
  have "cext (k1 mod K1 a + (k1 div K1 a) * K1 a) (k2 mod K2 a + (k2 div K2 a) * K2 a) =
        ck a ((k2 mod K2 a) * K1 a + k1 mod K1 a)"
    using p by (intro r) simp_all
  then show ?thesis by (simp add: mod_div_mult_eq)
qed

lemma separable_sum_nowrap:
  assumes "grid_ok a" "replicates a cext"
  shows "separable_sum a mul w1 w2 t1 t2 = nowrap_sum a mul w1 w2 cext t1 t2"
  by (simp add: separable_sum_def nowrap_sum_def replicates_wrap [OF assms])

section \<open>Zero imaginary tables\<close>


lemma with_zero_imag_sel [simp]:
  "r_ck (with_zero_imag a) = r_ck a" "i_ck (with_zero_imag a) = i_ck a"
  "K1 (with_zero_imag a) = K1 a" "K2 (with_zero_imag a) = K2 a"
  "r_h1 (with_zero_imag a) = r_h1 a" "r_h2 (with_zero_imag a) = r_h2 a"
  "J1 (with_zero_imag a) = J1 a" "J2 (with_zero_imag a) = J2 a"
  "L1 (with_zero_imag a) = L1 a" "L2 (with_zero_imag a) = L2 a"
  "p_tm (with_zero_imag a) = p_tm a" "M (with_zero_imag a) = M a"
  "i_h1 (with_zero_imag a) = replicate (length (r_h1 a)) (Fin 0)"
  "i_h2 (with_zero_imag a) = replicate (length (r_h2 a)) (Fin 0)"
  by (simp_all add: with_zero_imag_def)






lemma finite_sums_simp [simp]: "finite_sums (k, sr, si) = (finite_d sr \<and> finite_d si)"
  by (simp add: finite_sums_def)














section \<open>Facts about the examples\<close>

lemma ball_int_1: "(\<forall>x\<in>{0..<1::int}. P x) = P 0"
proof -
  have "{0..<1::int} = {0}" by auto
  then show ?thesis by simp
qed

lemma ball_int_2: "(\<forall>x\<in>{0..<2::int}. P x) = (P 0 \<and> P 1)"
proof -
  have "{0..<2::int} = {0, 1}" by auto
  then show ?thesis by simp
qed

lemma ball_int_3: "(\<forall>x\<in>{0..<3::int}. P x) = (P 0 \<and> P 1 \<and> P 2)"
proof -
  have "{0..<3::int} = {0, 1, 2}" by auto
  then show ?thesis by simp
qed

lemma floor_minus_1: "\<lfloor>- 1 :: real\<rfloor> = - 1"
  using floor_of_int [of "- 1", where ?'a = real] by simp

lemma ceiling_minus_1: "\<lceil>- 1 :: real\<rceil> = - 1"
  using ceiling_of_int [of "- 1", where ?'a = real] by simp

lemma rnd_quarter:
  "numeral w < (2 ^ 53 :: int) \<Longrightarrow> rnd (numeral w / 4) = Fin (numeral w / 4)"
  using rnd_dyadic [of "numeral w" 2] by simp

lemma rnd_neg_quarter:
  "numeral w < (2 ^ 53 :: int) \<Longrightarrow> rnd (- (numeral w / 4)) = Fin (- (numeral w / 4))"
  using rnd_dyadic [of "- numeral w" 2] by simp

lemma rnd_one_quarter: "rnd (1 / 4) = Fin (1 / 4)"
  using rnd_dyadic [of 1 2] by simp

lemma rnd_neg_one_quarter: "rnd (- (1 / 4)) = Fin (- (1 / 4))"
  using rnd_dyadic [of "- 1" 2] by simp

lemmas float_ev = fadd_def fsub_def fmul_def fdiv_def fneg_def ffloor_def to_int_def chk_def
  int_ok_def double_of_int_def finite_d_def inf_sign_def rnd_simps rnd_quarter rnd_neg_quarter
  rnd_one_quarter rnd_neg_one_quarter floor_minus_1 ceiling_minus_1

lemmas code_ev = interp2_table0_real_per_def point0_real_def outer0_real_def inner0_real_def
  interp2_table1_real_per_def point1_real_def outer1_real_def inner1_real_def
  interp2_table0_complex_per_def point0_complex_def outer0_complex_def inner0_complex_def
  step_par_def worker_def merge_def merge_step_def memset0_def malloc_def rd_cell_def
  single_worker_def mymod_def lookup1_def alf_def step_seq_def lookup0_def iround_int_def
  ptr_read_def ptr_add_def rd_def wr_def periodic_index_def sign_flip_def ncenter_def
  k_start_def iround_def for_loop.simps Let_def signed_modulo_int_def centred_def

lemmas spec_ev = window_ok0_def window_ok1_def start_ok_def window_start_def offset_def
  index0_def index1_def in_tab_def centred_def ptr_add_def ncenter_def iround_def
  ball_int_1 ball_int_2 ball_int_3 tables_ok0_def tables_ok1_def tables_ok0_imag_def
  t1_of_def t2_of_def grid_ok_def buffers_ok_def Let_def

lemma example_real_ok:
  "grid_ok (example_real t f1 f2)"
  "buffers_ok (example_real t f1 f2) ([x], [y])"
  "tables_ok0 (example_real (Fin 4) f1 f2)"
  "tables_ok1 (example_real (Fin 4) f1 f2)"
  "tables_ok0 (example_real (Fin 0) f1 f2)"
  "tables_ok1 (example_real (Fin 0) f1 f2)"
  by (simp_all add: example_real_def spec_ev float_ev)

lemma example_complex_ok:
  "grid_ok (example_complex t)"
  "buffers_ok (example_complex t) ([x], [y])"
  "tables_ok0 (example_complex (Fin 4))"
  "tables_ok0_imag (example_complex (Fin 4))"
  "tables_ok0 (example_complex (Fin 0))"
  "tables_ok0_imag (example_complex (Fin 0))"
  by (simp_all add: example_complex_def spec_ev float_ev)

lemma example_wide_ok:
  "grid_ok (example_wide f1 f2)"
  "buffers_ok (example_wide f1 f2) ([x], [y])"
  "tables_ok0 (example_wide f1 f2)"
  "tables_ok1 (example_wide f1 f2)"
  by (simp_all add: example_wide_def example_real_def spec_ev float_ev)

lemma example_wide_complex_ok:
  "grid_ok example_wide_complex"
  "buffers_ok example_wide_complex ([x], [y])"
  "tables_ok0 example_wide_complex"
  "tables_ok0_imag example_wide_complex"
  by (simp_all add: example_wide_complex_def example_complex_def spec_ev float_ev)

lemma example_wide_values:
  "interp2_table0_real_per True (example_wide 1 0) ([x], [y]) = Inr ([Fin (- 1)], [Fin 0])"
  "interp2_table1_real_per True (example_wide 1 0) ([x], [y]) = Inr ([Fin (- (3 / 4))], [Fin 0])"
  "interp2_table0_complex_per (single_worker 1) example_wide_complex ([x], [y]) =
     Inr ([Fin 1], [Fin 0])"
  by (simp_all add: example_wide_def example_wide_complex_def example_real_def
        example_complex_def code_ev float_ev)

section \<open>The separable double sum of every evaluator\<close>

text \<open>
  C1: for every query point \<open>(t1, t2)\<close> each evaluator returns the separable double
  sum, computed in double arithmetic. The window of axis \<open>a\<close> starts at
  \<open>window_start t_a J_a = 1 + floor (t_a - J_a / 2)\<close>, where the difference is the double
  difference of line 180 and the floor and the increment are exact; when that
  difference is computed exactly (\<open>exact_start\<close>), the start is the integer
  \<open>1 + floor (x - J / 2)\<close> of the real coordinate \<open>x\<close>. The outer sum runs over
  \<open>jj2 = 0, ..., J2 - 1\<close> with \<open>k2 = window_start t2 J2 + jj2\<close>, the inner sum over
  \<open>jj1 = 0, ..., J1 - 1\<close> with \<open>k1 = window_start t1 J1 + jj1\<close>, both accumulated in this
  order from zero; each term is the axis-1 weight times the coefficient at the linear
  index \<open>(k2 mod K2) * K1 + k1 mod K1\<close> (a scalar product for a real table, a complex
  product for a complex table), the inner sum is multiplied by the axis-2 weight, and
  the total of point \<open>mm\<close> is stored in slot \<open>mm\<close> (\<open>separable_sum\<close>, with the weights of
  each evaluator in \<open>value_real0\<close>, \<open>value_real1\<close> and \<open>value_complex0\<close>). The statement
  holds when the grid has positive extents and \<open>K1 * K2\<close> coefficients, the buffers have
  their documented sizes and every window is representable and stays inside the
  tables. The two sequential evaluators fill the caller's output arrays. In the
  complex-table evaluator a worker that was given the indices \<open>ms\<close> stores the sums in
  those slots of its private buffers, and with a single worker the output arrays hold
  the sums of all points.
\<close>

theorem separable_double_sum:
  "(grid_ok a \<and> buffers_ok a out \<and> tables_ok0 a \<longrightarrow>
      interp2_table0_real_per pf a out =
        Inr (map (\<lambda>mm. fst (value_real0 pf a mm)) [0..M a - 1],
             map (\<lambda>mm. snd (value_real0 pf a mm)) [0..M a - 1])) \<and>
   (grid_ok a \<and> buffers_ok a out \<and> tables_ok1 a \<longrightarrow>
      interp2_table1_real_per pf a out =
        Inr (map (\<lambda>mm. fst (value_real1 pf a mm)) [0..M a - 1],
             map (\<lambda>mm. snd (value_real1 pf a mm)) [0..M a - 1])) \<and>
   (grid_ok b \<and> buffers_ok b out \<and> tables_ok0 b \<and> tables_ok0_imag b \<longrightarrow>
      interp2_table0_complex_per (single_worker (M b)) b out =
        Inr (map (\<lambda>mm. fst (value_complex0 b mm)) [0..M b - 1],
             map (\<lambda>mm. snd (value_complex0 b mm)) [0..M b - 1]) \<and>
      ((\<forall>mm\<in>set ms. 0 \<le> mm \<and> mm < M b) \<longrightarrow>
         (\<exists>rp ip.
            worker b (point0_complex b
                (centred (r_h1 b) (J1 b) (L1 b)) (centred (i_h1 b) (J1 b) (L1 b))
                (centred (r_h2 b) (J2 b) (L2 b)) (centred (i_h2 b) (J2 b) (L2 b))) ms = Inr (rp, ip) \<and>
            (\<forall>mm\<in>set ms. rp ! nat mm = Some (fst (value_complex0 b mm)) \<and>
                           ip ! nat mm = Some (snd (value_complex0 b mm)))))) \<and>
   (start_ok t J \<longrightarrow> k_start t J = Inr (window_start t J)) \<and>
   (exact_start x J \<longrightarrow> window_start (Fin x) J = 1 + \<lfloor>x - real_of_int J / 2\<rfloor>)"
proof (intro conjI impI)
  assume "grid_ok a \<and> buffers_ok a out \<and> tables_ok0 a"
  then show "interp2_table0_real_per pf a out =
        Inr (map (\<lambda>mm. fst (value_real0 pf a mm)) [0..M a - 1],
             map (\<lambda>mm. snd (value_real0 pf a mm)) [0..M a - 1])"
    by (intro real0_values) simp_all
next
  assume "grid_ok a \<and> buffers_ok a out \<and> tables_ok1 a"
  then show "interp2_table1_real_per pf a out =
        Inr (map (\<lambda>mm. fst (value_real1 pf a mm)) [0..M a - 1],
             map (\<lambda>mm. snd (value_real1 pf a mm)) [0..M a - 1])"
    by (intro real1_values) simp_all
next
  assume "grid_ok b \<and> buffers_ok b out \<and> tables_ok0 b \<and> tables_ok0_imag b"
  then show "interp2_table0_complex_per (single_worker (M b)) b out =
        Inr (map (\<lambda>mm. fst (value_complex0 b mm)) [0..M b - 1],
             map (\<lambda>mm. snd (value_complex0 b mm)) [0..M b - 1])"
    by (intro complex0_single_values) simp_all
next
  let ?point = "point0_complex b
                (centred (r_h1 b) (J1 b) (L1 b)) (centred (i_h1 b) (J1 b) (L1 b))
                (centred (r_h2 b) (J2 b) (L2 b)) (centred (i_h2 b) (J2 b) (L2 b))"
  let ?rp = "fold (\<lambda>mm b'. b'[nat mm := Some (fst (value_complex0 b mm))]) ms (malloc (M b))"
  let ?ip = "fold (\<lambda>mm b'. b'[nat mm := Some (snd (value_complex0 b mm))]) ms (malloc (M b))"
  assume h: "grid_ok b \<and> buffers_ok b out \<and> tables_ok0 b \<and> tables_ok0_imag b"
    and ms: "\<forall>mm\<in>set ms. 0 \<le> mm \<and> mm < M b"
  have w: "worker b ?point ms = Inr (?rp, ?ip)"
    using h ms by (intro complex0_worker_values [of b out]) simp_all
  have r: "\<And>x. x \<in> set ms \<Longrightarrow> 0 \<le> x \<and> x < int (length (malloc (M b)))"
    using ms by (auto simp: malloc_def)
  have "\<forall>mm\<in>set ms. ?rp ! nat mm = Some (fst (value_complex0 b mm)) \<and>
                      ?ip ! nat mm = Some (snd (value_complex0 b mm))"
    using r by (simp add: fold_update_mem)
  with w show "\<exists>rp ip. worker b ?point ms = Inr (rp, ip) \<and>
      (\<forall>mm\<in>set ms. rp ! nat mm = Some (fst (value_complex0 b mm)) \<and>
                     ip ! nat mm = Some (snd (value_complex0 b mm)))"
    by blast
next
  assume "start_ok t J"
  then show "k_start t J = Inr (window_start t J)" by (rule k_start_eq)
next
  assume "exact_start x J"
  then show "window_start (Fin x) J = 1 + \<lfloor>x - real_of_int J / 2\<rfloor>" by (rule exact_start_window)
qed

theorem separable_double_sum_witness:
  "grid_ok (example_wide 1 0) \<and> buffers_ok (example_wide 1 0) ([Fin 9], [Fin 9]) \<and>
   tables_ok0 (example_wide 1 0) \<and> tables_ok1 (example_wide 1 0) \<and>
   grid_ok example_wide_complex \<and> buffers_ok example_wide_complex ([Fin 9], [Fin 9]) \<and>
   tables_ok0 example_wide_complex \<and> tables_ok0_imag example_wide_complex \<and>
   (0::int) < M example_wide_complex \<and>
   start_ok (Fin (17 / 4)) 3 \<and> exact_start (17 / 4) 3 \<and>
   k_start (Fin (17 / 4)) 3 = Inr 3 \<and> window_start (Fin (17 / 4)) 3 = 3 \<and>
   interp2_table0_real_per True (example_wide 1 0) ([Fin 9], [Fin 9]) =
     Inr ([Fin (- 1)], [Fin 0]) \<and>
   value_real0 True (example_wide 1 0) 0 = (Fin (- 1), Fin 0) \<and>
   interp2_table1_real_per True (example_wide 1 0) ([Fin 9], [Fin 9]) =
     Inr ([Fin (- (3 / 4))], [Fin 0]) \<and>
   value_real1 True (example_wide 1 0) 0 = (Fin (- (3 / 4)), Fin 0) \<and>
   interp2_table0_complex_per (single_worker 1) example_wide_complex ([Fin 9], [Fin 9]) =
     Inr ([Fin 1], [Fin 0]) \<and>
   value_complex0 example_wide_complex 0 = (Fin 1, Fin 0) \<and>
   (\<exists>rp ip.
      worker example_wide_complex (point0_complex example_wide_complex
          (centred [Fin 0, Fin 1, Fin 0, Fin 0] 3 1) (centred [Fin 0, Fin 0, Fin 0, Fin 0] 3 1)
          (centred [Fin 0, Fin 1, Fin 0] 2 1) (centred [Fin 0, Fin 0, Fin 0] 2 1)) [0] =
        Inr (rp, ip) \<and>
      rp ! 0 = Some (Fin 1) \<and> ip ! 0 = Some (Fin 0))"
proof -
  have m: "M (example_wide 1 0) = 1" "M example_wide_complex = 1"
    "r_h1 example_wide_complex = [Fin 0, Fin 1, Fin 0, Fin 0]"
    "r_h2 example_wide_complex = [Fin 0, Fin 1, Fin 0]"
    "i_h1 example_wide_complex = [Fin 0, Fin 0, Fin 0, Fin 0]"
    "i_h2 example_wide_complex = [Fin 0, Fin 0, Fin 0]"
    "J1 example_wide_complex = 3" "J2 example_wide_complex = 2"
    "L1 example_wide_complex = 1" "L2 example_wide_complex = 1"
    by (simp_all add: example_wide_def example_wide_complex_def example_real_def
          example_complex_def)
  have ms: "\<forall>mm\<in>set [0]. 0 \<le> mm \<and> mm < M example_wide_complex" by (simp add: m)
  have s: "start_ok (Fin (17 / 4)) 3" by (simp add: spec_ev float_ev)
  have e: "exact_start (17 / 4) 3" by (simp add: exact_start_def float_ev)
  have w: "window_start (Fin (17 / 4)) 3 = 3" by (simp add: spec_ev float_ev)
  note ok = example_wide_ok example_wide_complex_ok
  note v = example_wide_values [of "Fin 9" "Fin 9"]
  note T = separable_double_sum [of "example_wide 1 0" "([Fin 9], [Fin 9])" True
        example_wide_complex "[0]" "Fin (17 / 4)" 3 "17 / 4"]
  have r0: "interp2_table0_real_per True (example_wide 1 0) ([Fin 9], [Fin 9]) =
      Inr ([fst (value_real0 True (example_wide 1 0) 0)],
           [snd (value_real0 True (example_wide 1 0) 0)])"
    using T ok by (simp add: m)
  have r1: "interp2_table1_real_per True (example_wide 1 0) ([Fin 9], [Fin 9]) =
      Inr ([fst (value_real1 True (example_wide 1 0) 0)],
           [snd (value_real1 True (example_wide 1 0) 0)])"
    using T ok by (simp add: m)
  have rc: "interp2_table0_complex_per (single_worker 1) example_wide_complex
        ([Fin 9], [Fin 9]) =
      Inr ([fst (value_complex0 example_wide_complex 0)],
           [snd (value_complex0 example_wide_complex 0)])"
    using T ok by (simp add: m)
  have v0: "value_real0 True (example_wide 1 0) 0 = (Fin (- 1), Fin 0)"
    using r0 unfolding v by (simp add: prod_eq_iff)
  have v1: "value_real1 True (example_wide 1 0) 0 = (Fin (- (3 / 4)), Fin 0)"
    using r1 unfolding v by (simp add: prod_eq_iff)
  have vc: "value_complex0 example_wide_complex 0 = (Fin 1, Fin 0)"
    using rc unfolding v by (simp add: prod_eq_iff)
  have k: "k_start (Fin (17 / 4)) 3 = Inr 3"
    using T s by (simp add: w)
  have wk: "\<exists>rp ip.
      worker example_wide_complex (point0_complex example_wide_complex
          (centred [Fin 0, Fin 1, Fin 0, Fin 0] 3 1) (centred [Fin 0, Fin 0, Fin 0, Fin 0] 3 1)
          (centred [Fin 0, Fin 1, Fin 0] 2 1) (centred [Fin 0, Fin 0, Fin 0] 2 1)) [0] =
        Inr (rp, ip) \<and>
      rp ! 0 = Some (Fin 1) \<and> ip ! 0 = Some (Fin 0)"
    using T ok ms by (simp add: m vc)
  show ?thesis
    using ok s e w v v0 v1 vc k wk by (simp add: m)
qed

section \<open>Periodic indexing\<close>

text \<open>
  C2: for every integer grid offset \<open>k\<close> and every period \<open>K > 0\<close>, the periodic indexing
  of the evaluators yields \<open>(kmod, wrap)\<close> with \<open>0 \<le> kmod < K\<close>, \<open>k = kmod + K * wrap\<close> and
  \<open>wrap = floor (k / K)\<close>: the quotient is rounded down, not toward zero, also for a
  negative \<open>k\<close>. The two real-table evaluators compute the pair in line
  (\<open>periodic_index\<close>); the complex-table evaluator takes \<open>kmod\<close> from the macro \<open>mymod\<close>.
  For operands that are \<^verbatim>\<open>int\<close>s, the expression \<^verbatim>\<open>floor(k / (double) K)\<close> of the source,
  a double division followed by a floor and a conversion to \<^verbatim>\<open>int\<close>, yields this \<open>wrap\<close>.
\<close>

theorem periodic_index_floor:
  assumes "0 < K"
  shows "periodic_index k K = Inr (k mod K, k div K) \<and>
         mymod k K = Inr (k mod K) \<and>
         0 \<le> k mod K \<and> k mod K < K \<and>
         k = k mod K + K * (k div K) \<and>
         k div K = \<lfloor>real_of_int k / real_of_int K\<rfloor> \<and>
         (int_ok k \<and> int_ok K \<longrightarrow>
            to_int (ffloor (fdiv (double_of_int k) (double_of_int K))) = Inr (k div K))"
  using assms by (simp add: periodic_index_eq mymod_eq floor_divide_of_int_eq floor_quotient)

theorem periodic_index_floor_witness:
  "(0::int) < 4 \<and> int_ok (- 1) \<and> int_ok 4 \<and>
   periodic_index (- 1) 4 = Inr (3, - 1) \<and> mymod (- 1) 4 = Inr 3 \<and>
   to_int (ffloor (fdiv (double_of_int (- 1)) (double_of_int 4))) = Inr (- 1)"
  using periodic_index_floor [of 4 "- 1"] by (simp add: int_ok_def)

section \<open>The private buffers of the parallel evaluator\<close>

text \<open>
  C3 (the code differs): the claim is that every worker's private buffers are zero
  before the evaluation loop, so that the merge reads no uninitialised cell. The
  buffers come from \<open>malloc\<close> (lines 69-70) and are never cleared. In the end-to-end
  example with one query point and two workers, the worker that was given no index
  adds the unwritten slot 0 of its buffer to the output (line 127): the merge reads
  an uninitialised cell. With a single worker every slot is written before the merge.
\<close>

theorem private_buffers_not_zeroed:
  "valid_sched [[0], []] (M (example_complex (Fin 0))) \<and>
   malloc (M (example_complex (Fin 0))) = [None] \<and>
   interp2_table0_complex_per [[0], []] (example_complex (Fin 0)) ([Fin 9], [Fin 9]) =
     Inl UninitRead \<and>
   interp2_table0_complex_per (single_worker 1) (example_complex (Fin 0)) ([Fin 9], [Fin 9]) =
     Inr ([Fin 1], [Fin 0])"
proof -
  have "valid_sched [[0], []] (M (example_complex (Fin 0)))"
    by (simp add: valid_sched_def example_complex_def)
  moreover have "malloc (M (example_complex (Fin 0))) = [None]"
    by (simp add: malloc_def example_complex_def)
  moreover have "interp2_table0_complex_per [[0], []] (example_complex (Fin 0))
      ([Fin 9], [Fin 9]) = Inl UninitRead"
    by (simp add: example_complex_def code_ev float_ev)
  moreover have "interp2_table0_complex_per (single_worker 1) (example_complex (Fin 0))
      ([Fin 9], [Fin 9]) = Inr ([Fin 1], [Fin 0])"
    by (simp add: example_complex_def code_ev float_ev)
  ultimately show ?thesis by simp
qed

section \<open>Table lookup\<close>

lemma rnd_tiny: "rnd (- (1 / 2 ^ 60)) = Fin (- (1 / 2 ^ 60))"
  using rnd_dyadic [of "- 1" 60] by simp

lemma rnd_below_one: "rnd (1 - 1 / 2 ^ 60) = Fin 1"
  by (subst rnd_at [where e = "- 1" and lo = "1 / 2" and u = "1 / 2 ^ 53"])
     (simp_all add: rne_def Let_def powr_minus)

text \<open>
  The claim of C4 as stated fails in double arithmetic: the remainder \<open>alf = p - n\<close> is
  rounded, and for an offset just below an integer it is rounded up to 1. For the
  query coordinate \<open>t = - 2 ^ - 60\<close>, the neighbour \<open>k = 0\<close> and \<open>L = 1\<close>, the offset is
  \<open>p = - 2 ^ - 60\<close>, \<open>n = floor p = - 1\<close> and \<open>alf = p + 1\<close>, which is \<open>1.0\<close> as a double: the
  weight is the table value at \<open>n + 1\<close> alone.
\<close>

theorem remainder_rounds_to_one:
  "fmul (fsub (Fin (- (1 / 2 ^ 60))) (double_of_int 0)) (double_of_int 1) =
     Fin (- (1 / 2 ^ 60)) \<and>
   to_int (ffloor (Fin (- (1 / 2 ^ 60)))) = Inr (- 1) \<and>
   alf (Fin (- (1 / 2 ^ 60))) (- 1) = Fin 1 \<and>
   lookup1 (centred [Fin 10, Fin 20, Fin 40] 2 1) (Fin (- (1 / 2 ^ 60))) = Inr (Fin 20)"
proof -
  note r = rnd_tiny [simplified] rnd_below_one [simplified]
  have p: "fmul (fsub (Fin (- (1 / 2 ^ 60))) (double_of_int 0)) (double_of_int 1) =
     Fin (- (1 / 2 ^ 60))"
    by (simp add: float_ev r)
  have n: "to_int (ffloor (Fin (- (1 / 2 ^ 60)))) = Inr (- 1)"
    by (simp add: float_ev)
  have a: "alf (Fin (- (1 / 2 ^ 60))) (- 1) = Fin 1"
    by (simp add: alf_def float_ev r)
  have l: "lookup1 (centred [Fin 10, Fin 20, Fin 40] 2 1) (Fin (- (1 / 2 ^ 60))) = Inr (Fin 20)"
    unfolding lookup1_def n bind_res_simps Let_def a
    by (simp add: centred_def ptr_add_def ptr_read_def rd_def ncenter_def float_ev)
  from p n a l show ?thesis by simp
qed

text \<open>
  C4 (amended): in the 1st-order evaluator the weight for a finite offset \<open>p\<close> is
  \<open>(1 - alf) * table[n] + alf * table[n + 1]\<close>, every operation a double operation, with
  \<open>n = floor p\<close> and \<open>alf\<close> the double nearest to \<open>p - n\<close>, \<open>0 \<le> alf \<le> 1\<close>, where the table is
  indexed from its re-centred origin: view index \<open>n\<close> is cell \<open>ncenter J L + n\<close> of the
  table, and \<open>ncenter J L\<close> is \<open>J * L\<close> halved and rounded down. \<open>n\<close> must be an \<^verbatim>\<open>int\<close> and
  both cells must lie inside the table.
\<close>

theorem lookup1_linear_interpolation:
  assumes "int_ok \<lfloor>x\<rfloor>"
    and "in_tab (centred tab J L) \<lfloor>x\<rfloor>"
    and "in_tab (centred tab J L) (\<lfloor>x\<rfloor> + 1)"
  shows "ncenter J L = J * L div 2 \<and>
         (\<exists>y. rnd (x - real_of_int \<lfloor>x\<rfloor>) = Fin y \<and> 0 \<le> y \<and> y \<le> 1 \<and>
           lookup1 (centred tab J L) (Fin x) =
             Inr (fadd (fmul (fsub (Fin 1) (Fin y)) (tab ! nat (ncenter J L + \<lfloor>x\<rfloor>)))
                       (fmul (Fin y) (tab ! nat (ncenter J L + \<lfloor>x\<rfloor> + 1)))))"
proof -
  have "0 \<le> x - real_of_int \<lfloor>x\<rfloor>" "x - real_of_int \<lfloor>x\<rfloor> \<le> 1" by linarith+
  then obtain y where y: "rnd (x - real_of_int \<lfloor>x\<rfloor>) = Fin y" "0 \<le> y" "y \<le> 1"
    using rnd_unit by blast
  have i: "index1 (Fin x) = \<lfloor>x\<rfloor>" by (simp add: index1_def)
  have s: "fsub (Fin x) (Fin (real_of_int \<lfloor>x\<rfloor>)) = Fin y"
    using y(1) by (simp add: fsub_def fadd_def fneg_def)
  have "lookup1 (centred tab J L) (Fin x) =
      Inr (fadd (fmul (fsub (Fin 1) (Fin y)) (tab_at (centred tab J L) \<lfloor>x\<rfloor>))
                (fmul (Fin y) (tab_at (centred tab J L) (\<lfloor>x\<rfloor> + 1))))"
    using lookup1_in [of "Fin x" "centred tab J L"] assms by (simp add: i s)
  then have "lookup1 (centred tab J L) (Fin x) =
      Inr (fadd (fmul (fsub (Fin 1) (Fin y)) (tab ! nat (ncenter J L + \<lfloor>x\<rfloor>)))
                (fmul (Fin y) (tab ! nat (ncenter J L + \<lfloor>x\<rfloor> + 1))))"
    by (simp add: tab_at_def centred_def ptr_add_def add.assoc)
  moreover have "ncenter J L = J * L div 2"
    by (simp add: ncenter_def floor_divide_of_int_eq [where ?'a = real, symmetric])
  ultimately show ?thesis using y by blast
qed

theorem lookup1_linear_interpolation_witness:
  "int_ok \<lfloor>1 / 2 :: real\<rfloor> \<and>
   in_tab (centred [Fin 10, Fin 20, Fin 40] 2 1) \<lfloor>1 / 2 :: real\<rfloor> \<and>
   in_tab (centred [Fin 10, Fin 20, Fin 40] 2 1) (\<lfloor>1 / 2 :: real\<rfloor> + 1) \<and>
   rnd (1 / 2 - real_of_int \<lfloor>1 / 2 :: real\<rfloor>) = Fin (1 / 2) \<and>
   lookup1 (centred [Fin 10, Fin 20, Fin 40] 2 1) (Fin (1 / 2)) = Inr (Fin 30)"
proof -
  have h: "int_ok \<lfloor>1 / 2 :: real\<rfloor>"
          "in_tab (centred [Fin 10, Fin 20, Fin 40] 2 1) \<lfloor>1 / 2 :: real\<rfloor>"
          "in_tab (centred [Fin 10, Fin 20, Fin 40] 2 1) (\<lfloor>1 / 2 :: real\<rfloor> + 1)"
    by (simp_all add: int_ok_def in_tab_def centred_def ptr_add_def ncenter_def)
  have r: "rnd (1 / 2 - real_of_int \<lfloor>1 / 2 :: real\<rfloor>) = Fin (1 / 2)"
    by (simp add: float_ev)
  obtain y where y: "rnd (1 / 2 - real_of_int \<lfloor>1 / 2 :: real\<rfloor>) = Fin y"
    and l: "lookup1 (centred [Fin 10, Fin 20, Fin 40] 2 1) (Fin (1 / 2)) =
      Inr (fadd (fmul (fsub (Fin 1) (Fin y)) ([Fin 10, Fin 20, Fin 40] ! nat (ncenter 2 1 + \<lfloor>1 / 2 :: real\<rfloor>)))
                (fmul (Fin y) ([Fin 10, Fin 20, Fin 40] ! nat (ncenter 2 1 + \<lfloor>1 / 2 :: real\<rfloor> + 1))))"
    using lookup1_linear_interpolation [OF h] by blast
  have yh: "y = 1 / 2" using y r by simp
  have "lookup1 (centred [Fin 10, Fin 20, Fin 40] 2 1) (Fin (1 / 2)) = Inr (Fin 30)"
    unfolding l yh by (simp add: ncenter_def float_ev)
  with h r show ?thesis by simp
qed



section \<open>Degenerate inputs\<close>

lemma for_loop_empty: "n \<le> lo \<Longrightarrow> for_loop lo n body s = Inr s"
  by (simp add: for_loop.simps [of lo])

lemma valid_sched_empty: "valid_sched sched 0 \<Longrightarrow> w \<in> set sched \<Longrightarrow> w = []"
proof -
  assume v: "valid_sched sched 0" and w: "w \<in> set sched"
  have "length (sort (concat sched)) = 0" using v by (simp add: valid_sched_def)
  then have "concat sched = []" by simp
  then show "w = []" using w by simp
qed

lemma workers_empty:
  assumes "\<And>w. w \<in> set sched \<Longrightarrow> w = []"
  shows "map_res (worker a point) sched = Inr (map (\<lambda>w. (malloc (M a), malloc (M a))) sched)"
proof (rule map_res_all)
  fix w assume "w \<in> set sched"
  then have "w = []" by (rule assms)
  then show "worker a point w = (Inr (malloc (M a), malloc (M a)) :: error + _)"
    by (simp add: worker_def)
qed

lemma merges_empty: "M a = 0 \<Longrightarrow> iter (merge a) privs out = Inr out"
  by (induction privs) (simp_all add: merge_def for_loop_empty)

text \<open>
  C6 (amended): with \<open>M = 0\<close> every evaluator returns without an error and leaves the
  output arrays as they were, whatever the grid extents are, also for \<open>K = 0\<close>; for the
  complex-table evaluator this holds for every number of workers. The claim as stated
  also promises this for \<open>K = 0\<close> with query points; there the real-table evaluators
  divide by zero in the periodic indexing, as the last theorem of this section shows.
\<close>

theorem empty_input_unwritten:
  assumes "M a = 0" and "M b = 0" and "valid_sched sched (M b)"
  shows "interp2_table0_real_per pf a out = Inr out \<and>
         interp2_table1_real_per pf a out = Inr out \<and>
         interp2_table0_complex_per sched b out = Inr out"
proof -
  obtain r i where out: "out = (r, i)" by (cases out)
  have e: "\<And>w. w \<in> set sched \<Longrightarrow> w = []"
    using assms(2,3) by (auto dest: valid_sched_empty)
  have "interp2_table0_complex_per sched b (r, i) = Inr (r, i)"
    unfolding interp2_table0_complex_per_def prod.case Let_def
    by (simp add: assms(2) memset0_def workers_empty [OF e] merges_empty)
  then show ?thesis
    using assms(1)
    by (simp add: interp2_table0_real_per_def interp2_table1_real_per_def for_loop_empty out)
qed

theorem empty_input_unwritten_witness:
  "M ((example_real (Fin 0) 0 0)\<lparr>K1 := 0, r_ck := [], i_ck := [], p_tm := [], M := 0\<rparr>) = 0 \<and>
   M ((example_complex (Fin 0))\<lparr>K1 := 0, r_ck := [], i_ck := [], p_tm := [], M := 0\<rparr>) = 0 \<and>
   valid_sched [[], []] 0 \<and>
   interp2_table0_real_per True
     ((example_real (Fin 0) 0 0)\<lparr>K1 := 0, r_ck := [], i_ck := [], p_tm := [], M := 0\<rparr>) ([], []) =
     Inr ([], []) \<and>
   interp2_table1_real_per True
     ((example_real (Fin 0) 0 0)\<lparr>K1 := 0, r_ck := [], i_ck := [], p_tm := [], M := 0\<rparr>) ([], []) =
     Inr ([], []) \<and>
   interp2_table0_complex_per [[], []]
     ((example_complex (Fin 0))\<lparr>K1 := 0, r_ck := [], i_ck := [], p_tm := [], M := 0\<rparr>) ([], []) =
     Inr ([], [])"
proof -
  have v: "valid_sched [[], []] 0" by (simp add: valid_sched_def)
  show ?thesis
    using v empty_input_unwritten
      [of "(example_real (Fin 0) 0 0)\<lparr>K1 := 0, r_ck := [], i_ck := [], p_tm := [], M := 0\<rparr>"
          "(example_complex (Fin 0))\<lparr>K1 := 0, r_ck := [], i_ck := [], p_tm := [], M := 0\<rparr>"
          "[[], []]" True "([], [])"]
    by simp
qed

text \<open>
  The claim of C6 as stated fails for \<open>K = 0\<close>: the end-to-end example with the
  extent \<open>K1 = 0\<close>, an empty grid and its one query point does not complete. The
  0th-order real-table evaluator reaches \<^verbatim>\<open>floor(k1 / (double) K1)\<close> with \<open>K1 = 0\<close>.
\<close>

theorem zero_extent_divides_by_zero:
  "interp2_table0_real_per False
     ((example_real (Fin 0) 0 0)\<lparr>K1 := 0, r_ck := [], i_ck := []\<rparr>) ([Fin 9], [Fin 9]) = Inl DivByZero"
  by (simp add: example_real_def code_ev float_ev)

section \<open>Sign flip per period\<close>

text \<open>
  C7: when the file is compiled with the flip feature, the two real-table evaluators
  negate the weight of an axis exactly when the flip flag of that axis is set and the
  wrap count \<open>k div K\<close> of the neighbour is odd, also when it is negative; without the
  feature, or with the flag clear, the weight is the table weight. The complex-table
  evaluator has no flip arguments (\<open>complex_args\<close> has no flip field) and uses the
  table weights as they are, whatever the wrap count. The double sums are those of one
  query point, for a grid with positive extents and windows that are representable
  and inside the tables.
\<close>

theorem sign_flip_on_odd_wrap:
  "sign_flip pf flip wrap c = (if pf \<and> flip \<noteq> 0 \<and> odd wrap then fneg c else c) \<and>
   (grid_ok a \<and> window_ok0 h1 (J1 a) (L1 a) t1 \<and> window_ok0 h2 (J2 a) (L2 a) t2 \<longrightarrow>
      point0_real pf a h1 h2 t1 t2 =
        Inr (separable_sum a smul
             (\<lambda>k. if pf \<and> flip1 a \<noteq> 0 \<and> odd (k div K1 a)
                  then fneg (weight0 h1 (L1 a) t1 k) else weight0 h1 (L1 a) t1 k)
             (\<lambda>k. if pf \<and> flip2 a \<noteq> 0 \<and> odd (k div K2 a)
                  then fneg (weight0 h2 (L2 a) t2 k) else weight0 h2 (L2 a) t2 k) t1 t2)) \<and>
   (grid_ok a \<and> window_ok1 h1 (J1 a) (L1 a) t1 \<and> window_ok1 h2 (J2 a) (L2 a) t2 \<longrightarrow>
      point1_real pf a h1 h2 t1 t2 =
        Inr (separable_sum a smul
             (\<lambda>k. if pf \<and> flip1 a \<noteq> 0 \<and> odd (k div K1 a)
                  then fneg (weight1 h1 (L1 a) t1 k) else weight1 h1 (L1 a) t1 k)
             (\<lambda>k. if pf \<and> flip2 a \<noteq> 0 \<and> odd (k div K2 a)
                  then fneg (weight1 h2 (L2 a) t2 k) else weight1 h2 (L2 a) t2 k) t1 t2)) \<and>
   (grid_ok b \<and> window_ok0 rh1 (J1 b) (L1 b) t1 \<and> window_ok0 ih1 (J1 b) (L1 b) t1 \<and>
    window_ok0 rh2 (J2 b) (L2 b) t2 \<and> window_ok0 ih2 (J2 b) (L2 b) t2 \<longrightarrow>
      point0_complex b rh1 ih1 rh2 ih2 t1 t2 =
        Inr (separable_sum b cmul
             (\<lambda>k. (weight0 rh1 (L1 b) t1 k, weight0 ih1 (L1 b) t1 k))
             (\<lambda>k. (weight0 rh2 (L2 b) t2 k, weight0 ih2 (L2 b) t2 k)) t1 t2))"
proof (intro conjI impI)
  show "sign_flip pf flip wrap c = (if pf \<and> flip \<noteq> 0 \<and> odd wrap then fneg c else c)"
    by (rule sign_flip_odd)
next
  assume h: "grid_ok a \<and> window_ok0 h1 (J1 a) (L1 a) t1 \<and> window_ok0 h2 (J2 a) (L2 a) t2"
  have w: "w_real0 pf flip K h L t =
      (\<lambda>k. if pf \<and> flip \<noteq> 0 \<and> odd (k div K) then fneg (weight0 h L t k) else weight0 h L t k)"
    for flip K h L t
    by (intro ext) (simp add: w_real0_def sign_flip_odd)
  show "point0_real pf a h1 h2 t1 t2 =
        Inr (separable_sum a smul
             (\<lambda>k. if pf \<and> flip1 a \<noteq> 0 \<and> odd (k div K1 a)
                  then fneg (weight0 h1 (L1 a) t1 k) else weight0 h1 (L1 a) t1 k)
             (\<lambda>k. if pf \<and> flip2 a \<noteq> 0 \<and> odd (k div K2 a)
                  then fneg (weight0 h2 (L2 a) t2 k) else weight0 h2 (L2 a) t2 k) t1 t2)"
    unfolding w [symmetric] using h by (intro point0_real_sum) simp_all
next
  assume h: "grid_ok a \<and> window_ok1 h1 (J1 a) (L1 a) t1 \<and> window_ok1 h2 (J2 a) (L2 a) t2"
  have w: "w_real1 pf flip K h L t =
      (\<lambda>k. if pf \<and> flip \<noteq> 0 \<and> odd (k div K) then fneg (weight1 h L t k) else weight1 h L t k)"
    for flip K h L t
    by (intro ext) (simp add: w_real1_def sign_flip_odd)
  show "point1_real pf a h1 h2 t1 t2 =
        Inr (separable_sum a smul
             (\<lambda>k. if pf \<and> flip1 a \<noteq> 0 \<and> odd (k div K1 a)
                  then fneg (weight1 h1 (L1 a) t1 k) else weight1 h1 (L1 a) t1 k)
             (\<lambda>k. if pf \<and> flip2 a \<noteq> 0 \<and> odd (k div K2 a)
                  then fneg (weight1 h2 (L2 a) t2 k) else weight1 h2 (L2 a) t2 k) t1 t2)"
    unfolding w [symmetric] using h by (intro point1_real_sum) simp_all
next
  assume h: "grid_ok b \<and> window_ok0 rh1 (J1 b) (L1 b) t1 \<and> window_ok0 ih1 (J1 b) (L1 b) t1 \<and>
    window_ok0 rh2 (J2 b) (L2 b) t2 \<and> window_ok0 ih2 (J2 b) (L2 b) t2"
  have w: "w_complex0 rh ih L t = (\<lambda>k. (weight0 rh L t k, weight0 ih L t k))"
    for rh ih L t
    by (intro ext) (simp add: w_complex0_def)
  show "point0_complex b rh1 ih1 rh2 ih2 t1 t2 =
        Inr (separable_sum b cmul
             (\<lambda>k. (weight0 rh1 (L1 b) t1 k, weight0 ih1 (L1 b) t1 k))
             (\<lambda>k. (weight0 rh2 (L2 b) t2 k, weight0 ih2 (L2 b) t2 k)) t1 t2)"
    unfolding w [symmetric] using h by (intro point0_complex_sum) simp_all
qed

theorem sign_flip_on_odd_wrap_witness:
  "grid_ok (example_real (Fin 4) 1 0) \<and> grid_ok (example_complex (Fin 4)) \<and>
   window_ok0 (centred [Fin 0, Fin 1, Fin 0] 2 1) (J1 (example_real (Fin 4) 1 0))
     (L1 (example_real (Fin 4) 1 0)) (Fin 4) \<and>
   window_ok0 (centred [Fin 0, Fin 1, Fin 0] 2 1) (J2 (example_real (Fin 4) 1 0))
     (L2 (example_real (Fin 4) 1 0)) (Fin 0) \<and>
   window_ok1 (centred [Fin 0, Fin 1, Fin 0] 2 1) (J1 (example_real (Fin 4) 1 0))
     (L1 (example_real (Fin 4) 1 0)) (Fin 4) \<and>
   window_ok1 (centred [Fin 0, Fin 1, Fin 0] 2 1) (J2 (example_real (Fin 4) 1 0))
     (L2 (example_real (Fin 4) 1 0)) (Fin 0) \<and>
   window_ok0 (centred [Fin 0, Fin 1, Fin 0] 2 1) (J1 (example_complex (Fin 4)))
     (L1 (example_complex (Fin 4))) (Fin 4) \<and>
   window_ok0 (centred [Fin 0, Fin 0, Fin 0] 2 1) (J1 (example_complex (Fin 4)))
     (L1 (example_complex (Fin 4))) (Fin 4) \<and>
   window_ok0 (centred [Fin 0, Fin 1, Fin 0] 2 1) (J2 (example_complex (Fin 4)))
     (L2 (example_complex (Fin 4))) (Fin 0) \<and>
   window_ok0 (centred [Fin 0, Fin 0, Fin 0] 2 1) (J2 (example_complex (Fin 4)))
     (L2 (example_complex (Fin 4))) (Fin 0) \<and>
   sign_flip True 1 (- 3) (Fin 5) = Fin (- 5) \<and>
   point0_real True (example_real (Fin 4) 1 0)
     (centred [Fin 0, Fin 1, Fin 0] 2 1) (centred [Fin 0, Fin 1, Fin 0] 2 1) (Fin 4) (Fin 0) =
     Inr (Fin (- 1), Fin 0) \<and>
   separable_sum (example_real (Fin 4) 1 0) smul
     (\<lambda>k. if True \<and> flip1 (example_real (Fin 4) 1 0) \<noteq> 0 \<and>
              odd (k div K1 (example_real (Fin 4) 1 0))
           then fneg (weight0 (centred [Fin 0, Fin 1, Fin 0] 2 1)
                  (L1 (example_real (Fin 4) 1 0)) (Fin 4) k)
           else weight0 (centred [Fin 0, Fin 1, Fin 0] 2 1)
                  (L1 (example_real (Fin 4) 1 0)) (Fin 4) k)
     (\<lambda>k. if True \<and> flip2 (example_real (Fin 4) 1 0) \<noteq> 0 \<and>
              odd (k div K2 (example_real (Fin 4) 1 0))
           then fneg (weight0 (centred [Fin 0, Fin 1, Fin 0] 2 1)
                  (L2 (example_real (Fin 4) 1 0)) (Fin 0) k)
           else weight0 (centred [Fin 0, Fin 1, Fin 0] 2 1)
                  (L2 (example_real (Fin 4) 1 0)) (Fin 0) k)
     (Fin 4) (Fin 0) = (Fin (- 1), Fin 0) \<and>
   point1_real True (example_real (Fin 4) 1 0)
     (centred [Fin 0, Fin 1, Fin 0] 2 1) (centred [Fin 0, Fin 1, Fin 0] 2 1) (Fin 4) (Fin 0) =
     Inr (Fin (- 1), Fin 0) \<and>
   point0_complex (example_complex (Fin 4))
     (centred [Fin 0, Fin 1, Fin 0] 2 1) (centred [Fin 0, Fin 0, Fin 0] 2 1)
     (centred [Fin 0, Fin 1, Fin 0] 2 1) (centred [Fin 0, Fin 0, Fin 0] 2 1) (Fin 4) (Fin 0) =
     Inr (Fin 1, Fin 0)"
proof -
  have g: "grid_ok (example_real (Fin 4) 1 0)" "grid_ok (example_complex (Fin 4))"
    by (simp_all add: grid_ok_def example_real_def example_complex_def)
  have sel: "J1 (example_real (Fin 4) 1 0) = 2" "J2 (example_real (Fin 4) 1 0) = 2"
    "L1 (example_real (Fin 4) 1 0) = 1" "L2 (example_real (Fin 4) 1 0) = 1"
    "J1 (example_complex (Fin 4)) = 2" "J2 (example_complex (Fin 4)) = 2"
    "L1 (example_complex (Fin 4)) = 1" "L2 (example_complex (Fin 4)) = 1"
    by (simp_all add: example_real_def example_complex_def)
  have w: "window_ok0 (centred [Fin 0, Fin 1, Fin 0] 2 1) 2 1 (Fin 4)"
    "window_ok0 (centred [Fin 0, Fin 1, Fin 0] 2 1) 2 1 (Fin 0)"
    "window_ok1 (centred [Fin 0, Fin 1, Fin 0] 2 1) 2 1 (Fin 4)"
    "window_ok1 (centred [Fin 0, Fin 1, Fin 0] 2 1) 2 1 (Fin 0)"
    "window_ok0 (centred [Fin 0, Fin 0, Fin 0] 2 1) 2 1 (Fin 4)"
    "window_ok0 (centred [Fin 0, Fin 0, Fin 0] 2 1) 2 1 (Fin 0)"
    by (simp_all add: spec_ev float_ev)
  have s: "sign_flip True 1 (- 3) (Fin 5) = Fin (- 5)"
    by (simp add: sign_flip_def signed_modulo_int_def fneg_def)
  have p0: "point0_real True (example_real (Fin 4) 1 0)
     (centred [Fin 0, Fin 1, Fin 0] 2 1) (centred [Fin 0, Fin 1, Fin 0] 2 1) (Fin 4) (Fin 0) =
     Inr (Fin (- 1), Fin 0)"
    by (simp add: example_real_def code_ev float_ev)
  have p1: "point1_real True (example_real (Fin 4) 1 0)
     (centred [Fin 0, Fin 1, Fin 0] 2 1) (centred [Fin 0, Fin 1, Fin 0] 2 1) (Fin 4) (Fin 0) =
     Inr (Fin (- 1), Fin 0)"
    by (simp add: example_real_def code_ev float_ev)
  have pc: "point0_complex (example_complex (Fin 4))
     (centred [Fin 0, Fin 1, Fin 0] 2 1) (centred [Fin 0, Fin 0, Fin 0] 2 1)
     (centred [Fin 0, Fin 1, Fin 0] 2 1) (centred [Fin 0, Fin 0, Fin 0] 2 1) (Fin 4) (Fin 0) =
     Inr (Fin 1, Fin 0)"
    by (simp add: example_complex_def code_ev float_ev)
  note T = sign_flip_on_odd_wrap [of True 1 "- 3" "Fin 5" "example_real (Fin 4) 1 0"
        "centred [Fin 0, Fin 1, Fin 0] 2 1" "Fin 4" "centred [Fin 0, Fin 1, Fin 0] 2 1" "Fin 0"
        "example_complex (Fin 4)"
        "centred [Fin 0, Fin 1, Fin 0] 2 1" "centred [Fin 0, Fin 0, Fin 0] 2 1"
        "centred [Fin 0, Fin 1, Fin 0] 2 1" "centred [Fin 0, Fin 0, Fin 0] 2 1"]
  have e: "Inr (Fin (- 1), Fin 0) =
    (Inr (separable_sum (example_real (Fin 4) 1 0) smul
     (\<lambda>k. if True \<and> flip1 (example_real (Fin 4) 1 0) \<noteq> 0 \<and>
              odd (k div K1 (example_real (Fin 4) 1 0))
           then fneg (weight0 (centred [Fin 0, Fin 1, Fin 0] 2 1)
                  (L1 (example_real (Fin 4) 1 0)) (Fin 4) k)
           else weight0 (centred [Fin 0, Fin 1, Fin 0] 2 1)
                  (L1 (example_real (Fin 4) 1 0)) (Fin 4) k)
     (\<lambda>k. if True \<and> flip2 (example_real (Fin 4) 1 0) \<noteq> 0 \<and>
              odd (k div K2 (example_real (Fin 4) 1 0))
           then fneg (weight0 (centred [Fin 0, Fin 1, Fin 0] 2 1)
                  (L2 (example_real (Fin 4) 1 0)) (Fin 0) k)
           else weight0 (centred [Fin 0, Fin 1, Fin 0] 2 1)
                  (L2 (example_real (Fin 4) 1 0)) (Fin 0) k)
     (Fin 4) (Fin 0)) :: error + dcomplex)"
    using T g w unfolding p0 [symmetric] by (simp only: sel)
  show ?thesis
    using g w s p0 p1 pc e unfolding sel by (simp only: sum.inject simp_thms)
qed

section \<open>Periodic wraparound\<close>

lemma rnd_tie_4: "rnd (- (4 + 1 / 2 ^ 51)) = Fin (- 4)"
  by (subst rnd_at [where e = 2 and lo = 4 and u = "1 / 2 ^ 50"])
     (simp_all add: rne_def Let_def powr_minus)

lemma rnd_51: "rnd (- (1 / 2 ^ 51)) = Fin (- (1 / 2 ^ 51))"
  using rnd_dyadic [of "- 1" 51] by simp

lemma rnd_1_51: "rnd (- (1 + 1 / 2 ^ 51)) = Fin (- (1 + 1 / 2 ^ 51))"
  using rnd_dyadic [of "- (2 ^ 51 + 1)" 51] by (simp add: field_simps)

lemma rnd_1m51: "rnd (1 - 1 / 2 ^ 51) = Fin (1 - 1 / 2 ^ 51)"
  using rnd_dyadic [of "2 ^ 51 - 1" 51] by (simp add: field_simps)

text \<open>
  The claim of C8 as stated fails in double arithmetic: moving a query coordinate by one
  period can change the output, because the window start \<open>1 + floor (t - J / 2)\<close> is
  computed from a rounded difference. On a grid of three columns with the coefficients
  \<open>1, 1, 0\<close>, a window of two neighbours and the table \<open>[5, 1, 7]\<close>, the coordinate
  \<open>t = - (3 + 2 ^ - 51)\<close> and the coordinate \<open>t + 3 = - 2 ^ - 51\<close> are both doubles. At \<open>t\<close>
  the difference \<open>t - 1\<close> is rounded to \<open>- 4\<close>, the window starts at \<open>- 3\<close> and the output
  is 6; at \<open>t + 3\<close> the window starts at \<open>- 1\<close> and the output is 1. Both 0th-order
  evaluators show it; the sign flips are not compiled in.
\<close>

theorem period_shift_changes_output:
  "fadd (Fin (- (3 + 1 / 2 ^ 51))) (double_of_int (K1 (example_row (Fin 0)))) =
     Fin (- (1 / 2 ^ 51)) \<and>
   k_start (Fin (- (3 + 1 / 2 ^ 51))) 2 = Inr (- 3) \<and>
   k_start (Fin (- (1 / 2 ^ 51))) 2 = Inr (- 1) \<and>
   interp2_table0_real_per False (example_row (Fin (- (3 + 1 / 2 ^ 51)))) ([Fin 9], [Fin 9]) =
     Inr ([Fin 6], [Fin 0]) \<and>
   interp2_table0_real_per False (example_row (Fin (- (1 / 2 ^ 51)))) ([Fin 9], [Fin 9]) =
     Inr ([Fin 1], [Fin 0]) \<and>
   interp2_table0_complex_per (single_worker 1)
     (with_zero_imag (example_row (Fin (- (3 + 1 / 2 ^ 51))))) ([Fin 9], [Fin 9]) =
     Inr ([Fin 6], [Fin 0]) \<and>
   interp2_table0_complex_per (single_worker 1)
     (with_zero_imag (example_row (Fin (- (1 / 2 ^ 51))))) ([Fin 9], [Fin 9]) =
     Inr ([Fin 1], [Fin 0])"
proof -
  note r = rnd_tie_4 [simplified] rnd_51 [simplified] rnd_1_51 [simplified] rnd_1m51 [simplified]
  have a: "fadd (Fin (- (3 + 1 / 2 ^ 51))) (double_of_int (K1 (example_row (Fin 0)))) =
     Fin (- (1 / 2 ^ 51))"
    by (simp add: example_row_def float_ev r)
  have k: "k_start (Fin (- (3 + 1 / 2 ^ 51))) 2 = Inr (- 3)"
    "k_start (Fin (- (1 / 2 ^ 51))) 2 = Inr (- 1)"
    by (simp_all add: k_start_def float_ev r)
  have b: "interp2_table0_real_per False (example_row (Fin (- (3 + 1 / 2 ^ 51))))
      ([Fin 9], [Fin 9]) = Inr ([Fin 6], [Fin 0])"
    by (simp add: example_row_def code_ev float_ev r)
  have c: "interp2_table0_real_per False (example_row (Fin (- (1 / 2 ^ 51))))
      ([Fin 9], [Fin 9]) = Inr ([Fin 1], [Fin 0])"
    by (simp add: example_row_def code_ev float_ev r)
  have d: "interp2_table0_complex_per (single_worker 1)
     (with_zero_imag (example_row (Fin (- (3 + 1 / 2 ^ 51))))) ([Fin 9], [Fin 9]) =
     Inr ([Fin 6], [Fin 0])"
    by (simp add: example_row_def with_zero_imag_def code_ev float_ev r)
  have e: "interp2_table0_complex_per (single_worker 1)
     (with_zero_imag (example_row (Fin (- (1 / 2 ^ 51))))) ([Fin 9], [Fin 9]) =
     Inr ([Fin 1], [Fin 0])"
    by (simp add: example_row_def with_zero_imag_def code_ev float_ev r)
  from a k b c d e show ?thesis by simp
qed

text \<open>
  C8 (amended): the periodic wraparound of the grid index is exact. For a grid with
  positive extents and windows that are representable and inside the tables, with the
  sign flips disabled or not compiled in, the result of the two 0th-order evaluators is
  the double sum over any periodic replication \<open>cext\<close> of the grid, indexed by the
  unwrapped neighbours \<open>(k1, k2)\<close> without wraparound. Moving a query coordinate \<open>x\<close> to
  the double \<open>x + K\<close>, one full period further (\<open>K1\<close> along axis 1, \<open>K2\<close> along axis 2),
  leaves the result of a query point unchanged in all three evaluators, errors
  included, whenever both windows are representable and the computed window start
  moves by exactly \<open>K\<close> (\<open>window_shifts\<close>); that is the case when the difference
  \<open>t - J / 2\<close> of line 180 is computed exactly at both coordinates (\<open>exact_start\<close>).
\<close>

theorem periodic_wraparound_exact:
  assumes "\<not> pf \<or> (flip1 a = 0 \<and> flip2 a = 0)"
  shows "(window_shifts x (K1 a) (J1 a) \<longrightarrow>
            point0_real pf a h1 h2 (Fin (x + real_of_int (K1 a))) t2 =
            point0_real pf a h1 h2 (Fin x) t2 \<and>
            point1_real pf a h1 h2 (Fin (x + real_of_int (K1 a))) t2 =
            point1_real pf a h1 h2 (Fin x) t2) \<and>
         (window_shifts x (K2 a) (J2 a) \<longrightarrow>
            point0_real pf a h1 h2 t1 (Fin (x + real_of_int (K2 a))) =
            point0_real pf a h1 h2 t1 (Fin x) \<and>
            point1_real pf a h1 h2 t1 (Fin (x + real_of_int (K2 a))) =
            point1_real pf a h1 h2 t1 (Fin x)) \<and>
         (window_shifts x (K1 b) (J1 b) \<longrightarrow>
            point0_complex b rh1 ih1 rh2 ih2 (Fin (x + real_of_int (K1 b))) t2 =
            point0_complex b rh1 ih1 rh2 ih2 (Fin x) t2) \<and>
         (window_shifts x (K2 b) (J2 b) \<longrightarrow>
            point0_complex b rh1 ih1 rh2 ih2 t1 (Fin (x + real_of_int (K2 b))) =
            point0_complex b rh1 ih1 rh2 ih2 t1 (Fin x)) \<and>
         (exact_start x J \<and> exact_start (x + real_of_int K) J \<longrightarrow>
            window_start (Fin (x + real_of_int K)) J = window_start (Fin x) J + K) \<and>
         (grid_ok a \<and> replicates a cext \<and>
          window_ok0 h1 (J1 a) (L1 a) t1 \<and> window_ok0 h2 (J2 a) (L2 a) t2 \<longrightarrow>
            point0_real pf a h1 h2 t1 t2 =
              Inr (nowrap_sum a smul (weight0 h1 (L1 a) t1) (weight0 h2 (L2 a) t2) cext t1 t2)) \<and>
         (grid_ok b \<and> replicates b cext' \<and>
          window_ok0 rh1 (J1 b) (L1 b) t1 \<and> window_ok0 ih1 (J1 b) (L1 b) t1 \<and>
          window_ok0 rh2 (J2 b) (L2 b) t2 \<and> window_ok0 ih2 (J2 b) (L2 b) t2 \<longrightarrow>
            point0_complex b rh1 ih1 rh2 ih2 t1 t2 =
              Inr (nowrap_sum b cmul (w_complex0 rh1 ih1 (L1 b) t1) (w_complex0 rh2 ih2 (L2 b) t2)
                     cext' t1 t2))"
proof -
  have f1: "\<not> pf \<or> flip1 a = 0" and f2: "\<not> pf \<or> flip2 a = 0" using assms by auto
  have w: "w_real0 pf flip K h L t = weight0 h L t" if "\<not> pf \<or> flip = 0" for flip K h L t
    by (intro ext) (simp add: w_real0_def sign_flip_off [OF that])
  have r: "point0_real pf a h1 h2 t1 t2 =
      Inr (nowrap_sum a smul (weight0 h1 (L1 a) t1) (weight0 h2 (L2 a) t2) cext t1 t2)"
    if "grid_ok a \<and> replicates a cext \<and>
        window_ok0 h1 (J1 a) (L1 a) t1 \<and> window_ok0 h2 (J2 a) (L2 a) t2"
  proof -
    have "point0_real pf a h1 h2 t1 t2 =
      Inr (separable_sum a smul (w_real0 pf (flip1 a) (K1 a) h1 (L1 a) t1)
                 (w_real0 pf (flip2 a) (K2 a) h2 (L2 a) t2) t1 t2)"
      using that by (intro point0_real_sum) simp_all
    moreover have "separable_sum a smul (w_real0 pf (flip1 a) (K1 a) h1 (L1 a) t1)
                 (w_real0 pf (flip2 a) (K2 a) h2 (L2 a) t2) t1 t2 =
        nowrap_sum a smul (w_real0 pf (flip1 a) (K1 a) h1 (L1 a) t1)
                 (w_real0 pf (flip2 a) (K2 a) h2 (L2 a) t2) cext t1 t2"
      using that by (intro separable_sum_nowrap) simp_all
    ultimately show ?thesis by (simp add: w [OF f1] w [OF f2])
  qed
  have c: "point0_complex b rh1 ih1 rh2 ih2 t1 t2 =
      Inr (nowrap_sum b cmul (w_complex0 rh1 ih1 (L1 b) t1) (w_complex0 rh2 ih2 (L2 b) t2)
                 cext' t1 t2)"
    if "grid_ok b \<and> replicates b cext' \<and>
          window_ok0 rh1 (J1 b) (L1 b) t1 \<and> window_ok0 ih1 (J1 b) (L1 b) t1 \<and>
          window_ok0 rh2 (J2 b) (L2 b) t2 \<and> window_ok0 ih2 (J2 b) (L2 b) t2"
  proof -
    have "point0_complex b rh1 ih1 rh2 ih2 t1 t2 =
      Inr (separable_sum b cmul (w_complex0 rh1 ih1 (L1 b) t1) (w_complex0 rh2 ih2 (L2 b) t2) t1 t2)"
      using that by (intro point0_complex_sum) simp_all
    moreover have "separable_sum b cmul (w_complex0 rh1 ih1 (L1 b) t1)
                     (w_complex0 rh2 ih2 (L2 b) t2) t1 t2 =
        nowrap_sum b cmul (w_complex0 rh1 ih1 (L1 b) t1) (w_complex0 rh2 ih2 (L2 b) t2)
          cext' t1 t2"
      using that by (intro separable_sum_nowrap) simp_all
    ultimately show ?thesis by simp
  qed
  show ?thesis
    using r c
    by (simp add: point0_real_shift1 [OF f1] point0_real_shift2 [OF f2]
          point1_real_shift1 [OF f1] point1_real_shift2 [OF f2]
          point0_complex_shift1 point0_complex_shift2 exact_start_shift)
qed

theorem periodic_wraparound_exact_witness:
  "flip1 (example_real (Fin 0) 0 0) = 0 \<and> flip2 (example_real (Fin 0) 0 0) = 0 \<and>
   window_shifts (15 / 4) 4 2 \<and> exact_start (15 / 4) 2 \<and> exact_start (15 / 4 + real_of_int 4) 2 \<and>
   window_start (Fin (15 / 4)) 2 = 3 \<and> window_start (Fin (31 / 4)) 2 = 7 \<and>
   grid_ok (example_real (Fin 0) 0 0) \<and>
   replicates (example_real (Fin 0) 0 0) (periodic_ext (example_real (Fin 0) 0 0)) \<and>
   window_ok0 (centred [Fin 0, Fin 1, Fin 0] 2 1) 2 1 (Fin (15 / 4)) \<and>
   window_ok0 (centred [Fin 0, Fin 1, Fin 0] 2 1) 2 1 (Fin 0) \<and>
   grid_ok (example_complex (Fin 0)) \<and>
   replicates (example_complex (Fin 0)) (periodic_ext (example_complex (Fin 0))) \<and>
   window_ok0 (centred [Fin 0, Fin 0, Fin 0] 2 1) 2 1 (Fin (15 / 4)) \<and>
   window_ok0 (centred [Fin 0, Fin 0, Fin 0] 2 1) 2 1 (Fin 0) \<and>
   point0_real True (example_real (Fin 0) 0 0)
     (centred [Fin 0, Fin 1, Fin 0] 2 1) (centred [Fin 0, Fin 1, Fin 0] 2 1)
     (Fin (31 / 4)) (Fin 0) =
   point0_real True (example_real (Fin 0) 0 0)
     (centred [Fin 0, Fin 1, Fin 0] 2 1) (centred [Fin 0, Fin 1, Fin 0] 2 1)
     (Fin (15 / 4)) (Fin 0) \<and>
   point0_real True (example_real (Fin 0) 0 0)
     (centred [Fin 0, Fin 1, Fin 0] 2 1) (centred [Fin 0, Fin 1, Fin 0] 2 1)
     (Fin (15 / 4)) (Fin 0) = Inr (Fin 1, Fin 0) \<and>
   nowrap_sum (example_real (Fin 0) 0 0) smul
     (weight0 (centred [Fin 0, Fin 1, Fin 0] 2 1) 1 (Fin (15 / 4)))
     (weight0 (centred [Fin 0, Fin 1, Fin 0] 2 1) 1 (Fin 0))
     (periodic_ext (example_real (Fin 0) 0 0)) (Fin (15 / 4)) (Fin 0) = (Fin 1, Fin 0) \<and>
   point0_complex (example_complex (Fin 0))
     (centred [Fin 0, Fin 1, Fin 0] 2 1) (centred [Fin 0, Fin 0, Fin 0] 2 1)
     (centred [Fin 0, Fin 1, Fin 0] 2 1) (centred [Fin 0, Fin 0, Fin 0] 2 1)
     (Fin (31 / 4)) (Fin 0) =
   point0_complex (example_complex (Fin 0))
     (centred [Fin 0, Fin 1, Fin 0] 2 1) (centred [Fin 0, Fin 0, Fin 0] 2 1)
     (centred [Fin 0, Fin 1, Fin 0] 2 1) (centred [Fin 0, Fin 0, Fin 0] 2 1)
     (Fin (15 / 4)) (Fin 0)"
proof -
  let ?a = "example_real (Fin 0) 0 0"
  let ?b = "example_complex (Fin 0)"
  let ?h = "centred [Fin 0, Fin 1, Fin 0] 2 1"
  let ?z = "centred [Fin 0, Fin 0, Fin 0] 2 1"
  have f0: "flip1 ?a = 0" "flip2 ?a = 0" by (simp_all add: example_real_def)
  then have f: "\<not> True \<or> (flip1 ?a = 0 \<and> flip2 ?a = 0)" by simp
  have g: "grid_ok ?a" "grid_ok ?b"
    by (simp_all add: grid_ok_def example_real_def example_complex_def)
  have rep: "replicates ?a (periodic_ext ?a)" "replicates ?b (periodic_ext ?b)"
    by (rule periodic_ext_replicates; simp add: example_real_def example_complex_def)+
  have sel: "J1 ?a = 2" "J2 ?a = 2" "L1 ?a = 1" "L2 ?a = 1" "K1 ?a = 4" "K2 ?a = 4"
    "J1 ?b = 2" "J2 ?b = 2" "L1 ?b = 1" "L2 ?b = 1" "K1 ?b = 4" "K2 ?b = 4"
    by (simp_all add: example_real_def example_complex_def)
  have q: "15 / 4 + real_of_int 4 = 31 / 4" by simp
  have w: "window_ok0 ?h 2 1 (Fin 0)" "window_ok0 ?z 2 1 (Fin 0)"
    "window_ok0 ?h 2 1 (Fin (15 / 4))" "window_ok0 ?z 2 1 (Fin (15 / 4))"
    by (simp_all add: spec_ev float_ev)
  have ws: "window_start (Fin (15 / 4)) 2 = 3" "window_start (Fin (31 / 4)) 2 = 7"
    by (simp_all add: spec_ev float_ev)
  have sh: "window_shifts (15 / 4) 4 2"
    by (simp add: window_shifts_def spec_ev float_ev)
  have ex: "exact_start (15 / 4) 2" "exact_start (15 / 4 + real_of_int 4) 2"
    by (simp_all add: exact_start_def float_ev)
  have p0: "point0_real True ?a ?h ?h (Fin (15 / 4)) (Fin 0) = Inr (Fin 1, Fin 0)"
    by (simp add: example_real_def code_ev float_ev)
  note T = periodic_wraparound_exact [OF f, of "15 / 4" ?h ?h "Fin 0" "Fin (15 / 4)" ?b
      ?h ?z ?h ?z 2 4 "periodic_ext ?a" "periodic_ext ?b"]
  have s1: "point0_real True ?a ?h ?h (Fin (31 / 4)) (Fin 0) =
            point0_real True ?a ?h ?h (Fin (15 / 4)) (Fin 0)"
    using T sh by (simp add: sel)
  have s2: "point0_complex ?b ?h ?z ?h ?z (Fin (31 / 4)) (Fin 0) =
            point0_complex ?b ?h ?z ?h ?z (Fin (15 / 4)) (Fin 0)"
    using T sh by (simp add: sel)
  have n: "Inr (Fin 1, Fin 0) =
      (Inr (nowrap_sum ?a smul (weight0 ?h 1 (Fin (15 / 4))) (weight0 ?h 1 (Fin 0))
         (periodic_ext ?a) (Fin (15 / 4)) (Fin 0)) :: error + dcomplex)"
    using T g rep w unfolding p0 [symmetric] by (simp only: sel)
  show ?thesis
    using f0 g rep w ws sh ex p0 s1 s2 n by (simp only: sum.inject simp_thms)
qed

section \<open>The end-to-end example\<close>

text \<open>
  C9: in the end-to-end example (\<open>K1 = K2 = 4\<close>, \<open>J1 = J2 = 2\<close>, \<open>L1 = L2 = 1\<close>, both
  tables \<open>[0, 1, 0]\<close>, coefficient 1 at \<open>(0, 0)\<close> and 0 elsewhere, imaginary parts zero)
  the 0th-order real-table evaluator returns \<open>(1, 0)\<close> for the query point \<open>(0.0, 0.0)\<close>
  and the same output \<open>(1, 0)\<close> for the query point \<open>(4.0, 0.0)\<close>, whatever the output
  arrays held before. This is so in the default build, which has no flip arguments
  (the values of the flip fields are then ignored), and in a build with the flip
  feature when the flip of axis 1 is off; the query point \<open>(0.0, 0.0)\<close> gives \<open>(1, 0)\<close>
  for every setting of the flips.
\<close>

theorem example_end_to_end:
  "interp2_table0_real_per pf (example_real (Fin 0) f1 f2) ([x], [y]) = Inr ([Fin 1], [Fin 0]) \<and>
   interp2_table0_real_per False (example_real (Fin 4) f1 f2) ([x], [y]) =
     Inr ([Fin 1], [Fin 0]) \<and>
   interp2_table0_real_per True (example_real (Fin 4) 0 f2) ([x], [y]) =
     Inr ([Fin 1], [Fin 0]) \<and>
   interp2_table0_real_per pf (example_real (Fin 4) 0 0) ([x], [y]) =
   interp2_table0_real_per pf (example_real (Fin 0) 0 0) ([x], [y])"
proof -
  have a: "interp2_table0_real_per pf (example_real (Fin 0) f1 f2) ([x], [y]) =
      Inr ([Fin 1], [Fin 0])" for pf f1 f2
    by (simp add: example_real_def code_ev float_ev)
  have b: "interp2_table0_real_per False (example_real (Fin 4) f1 f2) ([x], [y]) =
      Inr ([Fin 1], [Fin 0])"
    by (simp add: example_real_def code_ev float_ev)
  have c: "interp2_table0_real_per pf (example_real (Fin 4) 0 f2) ([x], [y]) =
      Inr ([Fin 1], [Fin 0])" for pf f2
    by (simp add: example_real_def code_ev float_ev)
  from a b c show ?thesis by simp
qed

section \<open>The two 0th-order evaluators\<close>





end
